theory Spec2Isabelle
  imports Main "HOL-Library.Word"
begin

section \<open>Two sum: the brute-force and the indexed search of \<open>cpp/0001.two-sum/main.cpp\<close>\<close>

text \<open>
  The program is the class \<open>Solution\<close> with two static member functions,
  \<open>twoSum\<close> and \<open>twoSum2\<close>, both of type
  \<^verbatim>\<open>std::vector<int> (std::vector<int>& nums, int target)\<close>.

  Data, as the code has it:
  \<^item> \<open>int\<close> is a 32-bit word. This holds for the elements of \<open>nums\<close>, for
    \<open>target\<close>, for the keys and values of the \<open>std::map<int, int>\<close>, for the loop
    counters \<open>i\<close> and \<open>j\<close>, and for the indices in the returned \<open>std::vector<int>\<close>.
    \<open>+\<close>, \<open>-\<close> and \<open>++\<close> on it wrap around, which is what the compiled code computes
    on a two's complement machine (C++ itself leaves signed overflow undefined).
    \<open>sint\<close> reads a word as the integer it stands for.
  \<^item> \<open>size_t\<close>, the type of \<open>nums.size()\<close> and of the argument of \<open>nums[i]\<close>, is a
    64-bit word, unsigned. In \<open>i < nums.size()\<close>, \<open>i < nums.size() - 1\<close> and \<open>nums[i]\<close>
    the \<open>int\<close> is converted to \<open>size_t\<close> by sign extension (\<open>to_size_t\<close>), so a
    negative counter becomes a value of at least \<open>2^64 - 2^31\<close>.
  \<^item> a vector is a list; \<open>nums[k]\<close> is a checked read that yields the error
    \<open>OutOfBounds\<close> where C++ leaves the behaviour undefined.
  \<^item> the returned vector is a list: \<open>[]\<close> for \<^verbatim>\<open>return {}\<close> and \<open>[i, j]\<close> for
    \<^verbatim>\<open>return {i, j}\<close>.
  \<^item> \<open>std::map<int, int>\<close> is a partial map; only \<open>find\<close> and \<open>emplace\<close> are used
    on it.
\<close>

type_synonym int32 = "32 word"

type_synonym size_t = "64 word"

datatype error = OutOfBounds

text \<open>\<open>v.size()\<close> of a \<open>std::vector\<close>.\<close>

definition vec_size :: "'a list \<Rightarrow> size_t" where
  "vec_size v = of_nat (length v)"

text \<open>\<open>v[k]\<close> of a \<open>std::vector\<close>.\<close>

definition vec_at :: "'a list \<Rightarrow> size_t \<Rightarrow> error + 'a" where
  "vec_at v k = (if unat k < length v then Inr (v ! unat k) else Inl OutOfBounds)"

text \<open>The conversion of an \<open>int\<close> operand to \<open>size_t\<close>.\<close>

definition to_size_t :: "int32 \<Rightarrow> size_t" where
  "to_size_t i = scast i"

text \<open>
  A \<open>std::vector\<close> holds at most \<open>max_size()\<close> elements, and no implementation puts
  \<open>max_size()\<close> of a \<open>std::vector<int>\<close> above \<open>PTRDIFF_MAX\<close>. Statements about every
  vector are statements about every list of at most that length.
\<close>

definition PTRDIFF_MAX :: nat where
  "PTRDIFF_MAX = 2 ^ 63 - 1"

text \<open>
  The loops count upwards in \<open>int\<close>. A counter below a \<open>size_t\<close> bound is not \<open>-1\<close>,
  so \<open>++\<close> takes it one step up in the order \<open>0, 1, \<dots>, INT_MAX, INT_MIN, \<dots>, -1\<close>;
  this is why the loops end.
\<close>

definition counter_rank :: "int32 \<Rightarrow> nat" where
  "counter_rank i = 2 ^ 32 - unat i"

lemma counter_not_last:
  assumes "to_size_t i < s"
  shows "1 + i \<noteq> 0"
proof
  assume "1 + i = 0"
  then have "i = - 1" by (simp add: eq_neg_iff_add_eq_0 add.commute)
  then have "to_size_t i = - 1" by (simp add: to_size_t_def)
  with assms show False by simp
qed

lemma counter_rank_less:
  assumes "to_size_t i < s"
  shows "counter_rank (i + 1) < counter_rank i"
proof -
  from counter_not_last [OF assms] have "unat (1 + i) = Suc (unat i)"
    by (rule unatSuc)
  moreover have "unat (1 + i) < 2 ^ 32" using unsigned_less [of "1 + i"] by simp
  ultimately show ?thesis by (simp add: counter_rank_def add.commute)
qed

subsection \<open>\<open>twoSum\<close>: brute force\<close>

text \<open>
  A loop yields \<open>Some r\<close> when its body executed \<^verbatim>\<open>return r\<close> and \<open>None\<close> when
  it ran to its end.

  The inner loop \<^verbatim>\<open>for (int j = i + 1; j < nums.size(); ++j)\<close>, entered at \<open>j\<close>.
\<close>

function twoSum_inner ::
  "int32 list \<Rightarrow> int32 \<Rightarrow> int32 \<Rightarrow> int32 \<Rightarrow> error + int32 list option" where
  "twoSum_inner nums target i j =
     (if to_size_t j < vec_size nums then
        (case vec_at nums (to_size_t i) of
           Inl e \<Rightarrow> Inl e
         | Inr a \<Rightarrow>
             (case vec_at nums (to_size_t j) of
                Inl e \<Rightarrow> Inl e
              | Inr b \<Rightarrow>
                  if a + b = target then Inr (Some [i, j])
                  else twoSum_inner nums target i (j + 1)))
      else Inr None)"
  by pat_completeness auto
termination
  by (relation "measure (\<lambda>(nums, target, i, j). counter_rank j)")
     (simp_all add: counter_rank_less)

text \<open>
  The outer loop \<^verbatim>\<open>for (int i = 0; i < nums.size() - 1; ++i)\<close>, entered at \<open>i\<close>. The
  subtraction is in \<open>size_t\<close>: at size 0 it wraps around to the largest value.
\<close>

function twoSum_outer ::
  "int32 list \<Rightarrow> int32 \<Rightarrow> int32 \<Rightarrow> error + int32 list option" where
  "twoSum_outer nums target i =
     (if to_size_t i < vec_size nums - 1 then
        (case twoSum_inner nums target i (i + 1) of
           Inl e \<Rightarrow> Inl e
         | Inr (Some r) \<Rightarrow> Inr (Some r)
         | Inr None \<Rightarrow> twoSum_outer nums target (i + 1))
      else Inr None)"
  by pat_completeness auto
termination
  by (relation "measure (\<lambda>(nums, target, i). counter_rank i)")
     (simp_all add: counter_rank_less del: twoSum_inner.simps)

definition twoSum :: "int32 list \<Rightarrow> int32 \<Rightarrow> error + int32 list" where
  "twoSum nums target =
     (if vec_size nums < 2 then Inr []
      else
        (case twoSum_outer nums target 0 of
           Inl e \<Rightarrow> Inl e
         | Inr (Some r) \<Rightarrow> Inr r
         | Inr None \<Rightarrow> Inr []))"

subsection \<open>\<open>twoSum2\<close>: one pass with a map from value to index\<close>

text \<open>\<open>cache.emplace(k, v)\<close> inserts only when the key is absent.\<close>

definition emplace :: "(int32 \<rightharpoonup> int32) \<Rightarrow> int32 \<Rightarrow> int32 \<Rightarrow> (int32 \<rightharpoonup> int32)" where
  "emplace cache k v = (if cache k = None then cache(k \<mapsto> v) else cache)"

text \<open>The loop \<^verbatim>\<open>for (int i = 0; i < nums.size(); ++i)\<close>, entered at \<open>i\<close> with \<open>cache\<close>.\<close>

function twoSum2_loop ::
  "int32 list \<Rightarrow> int32 \<Rightarrow> (int32 \<rightharpoonup> int32) \<Rightarrow> int32 \<Rightarrow> error + int32 list option" where
  "twoSum2_loop nums target cache i =
     (if to_size_t i < vec_size nums then
        (case vec_at nums (to_size_t i) of
           Inl e \<Rightarrow> Inl e
         | Inr num \<Rightarrow>
             (case cache (target - num) of
                Some k \<Rightarrow> Inr (Some [k, i])
              | None \<Rightarrow> twoSum2_loop nums target (emplace cache num i) (i + 1)))
      else Inr None)"
  by pat_completeness auto
termination
  by (relation "measure (\<lambda>(nums, target, cache, i). counter_rank i)")
     (simp_all add: counter_rank_less)

definition twoSum2 :: "int32 list \<Rightarrow> int32 \<Rightarrow> error + int32 list" where
  "twoSum2 nums target =
     (if vec_size nums < 2 then Inr []
      else
        (case twoSum2_loop nums target Map.empty 0 of
           Inl e \<Rightarrow> Inl e
         | Inr (Some r) \<Rightarrow> Inr r
         | Inr None \<Rightarrow> Inr []))"

subsection \<open>\<open>checkSolution\<close>: the assertions of the test driver\<close>

text \<open>
  Each block of \<open>checkSolution\<close> calls \<open>twoSum2\<close> and asserts
  \<^verbatim>\<open>result[0] == a && result[1] == b\<close>. The reads of \<open>result\<close> are checked reads
  too: an assertion on an empty result does not hold.
\<close>

definition assert_result :: "error + int32 list \<Rightarrow> int32 \<Rightarrow> int32 \<Rightarrow> bool" where
  "assert_result res a b =
     (case res of
        Inl e \<Rightarrow> False
      | Inr result \<Rightarrow> vec_at result 0 = Inr a \<and> vec_at result 1 = Inr b)"

definition checkSolution :: bool where
  "checkSolution =
     (assert_result (twoSum2 [2, 7, 11, 15] 9) 0 1 \<and>
      assert_result (twoSum2 [3, 2, 4] 6) 1 2 \<and>
      assert_result (twoSum2 [3, 3] 6) 0 1)"

subsection \<open>The caller's vector as state\<close>

text \<open>
  \<open>nums\<close> is passed as \<^verbatim>\<open>std::vector<int>&\<close>, a reference that is not
  \<open>const\<close>: the callee shares the caller's object and is allowed to write to it.
  To say what happens to that object, the same two functions are written once more with
  the vector threaded through every statement: each one takes the current vector and
  hands on the vector it leaves behind. The only statements of the source that touch
  \<open>nums\<close> are \<open>nums.size()\<close> and the reads \<open>nums[i]\<close>. The class has no data
  members and the functions have no static variables, so the vector is the whole state
  that a call shares with its caller.
\<close>

definition vec_read :: "'a list \<Rightarrow> size_t \<Rightarrow> (error + 'a) \<times> 'a list" where
  "vec_read v k = (vec_at v k, v)"

function twoSum_inner_st ::
  "int32 list \<Rightarrow> int32 \<Rightarrow> int32 \<Rightarrow> int32 \<Rightarrow> (error + int32 list option) \<times> int32 list" where
  "twoSum_inner_st nums target i j =
     (if to_size_t j < vec_size nums then
        (case vec_read nums (to_size_t i) of
           (Inl e, nums1) \<Rightarrow> (Inl e, nums1)
         | (Inr a, nums1) \<Rightarrow>
             (case vec_read nums1 (to_size_t j) of
                (Inl e, nums2) \<Rightarrow> (Inl e, nums2)
              | (Inr b, nums2) \<Rightarrow>
                  if a + b = target then (Inr (Some [i, j]), nums2)
                  else twoSum_inner_st nums2 target i (j + 1)))
      else (Inr None, nums))"
  by pat_completeness auto
termination
  by (relation "measure (\<lambda>(nums, target, i, j). counter_rank j)")
     (simp_all add: counter_rank_less)

function twoSum_outer_st ::
  "int32 list \<Rightarrow> int32 \<Rightarrow> int32 \<Rightarrow> (error + int32 list option) \<times> int32 list" where
  "twoSum_outer_st nums target i =
     (if to_size_t i < vec_size nums - 1 then
        (case twoSum_inner_st nums target i (i + 1) of
           (Inl e, nums1) \<Rightarrow> (Inl e, nums1)
         | (Inr (Some r), nums1) \<Rightarrow> (Inr (Some r), nums1)
         | (Inr None, nums1) \<Rightarrow> twoSum_outer_st nums1 target (i + 1))
      else (Inr None, nums))"
  by pat_completeness auto
termination
  by (relation "measure (\<lambda>(nums, target, i). counter_rank i)")
     (simp_all add: counter_rank_less del: twoSum_inner_st.simps)

definition twoSum_st :: "int32 list \<Rightarrow> int32 \<Rightarrow> (error + int32 list) \<times> int32 list" where
  "twoSum_st nums target =
     (if vec_size nums < 2 then (Inr [], nums)
      else
        (case twoSum_outer_st nums target 0 of
           (Inl e, nums1) \<Rightarrow> (Inl e, nums1)
         | (Inr (Some r), nums1) \<Rightarrow> (Inr r, nums1)
         | (Inr None, nums1) \<Rightarrow> (Inr [], nums1)))"

function twoSum2_loop_st ::
  "int32 list \<Rightarrow> int32 \<Rightarrow> (int32 \<rightharpoonup> int32) \<Rightarrow> int32 \<Rightarrow>
   (error + int32 list option) \<times> int32 list" where
  "twoSum2_loop_st nums target cache i =
     (if to_size_t i < vec_size nums then
        (case vec_read nums (to_size_t i) of
           (Inl e, nums1) \<Rightarrow> (Inl e, nums1)
         | (Inr num, nums1) \<Rightarrow>
             (case cache (target - num) of
                Some k \<Rightarrow> (Inr (Some [k, i]), nums1)
              | None \<Rightarrow> twoSum2_loop_st nums1 target (emplace cache num i) (i + 1)))
      else (Inr None, nums))"
  by pat_completeness auto
termination
  by (relation "measure (\<lambda>(nums, target, cache, i). counter_rank i)")
     (simp_all add: counter_rank_less)

definition twoSum2_st :: "int32 list \<Rightarrow> int32 \<Rightarrow> (error + int32 list) \<times> int32 list" where
  "twoSum2_st nums target =
     (if vec_size nums < 2 then (Inr [], nums)
      else
        (case twoSum2_loop_st nums target Map.empty 0 of
           (Inl e, nums1) \<Rightarrow> (Inl e, nums1)
         | (Inr (Some r), nums1) \<Rightarrow> (Inr r, nums1)
         | (Inr None, nums1) \<Rightarrow> (Inr [], nums1)))"

section \<open>The same loops over unbounded counters\<close>

text \<open>
  The definitions of this section are not the program. They are the two searches with
  natural numbers for counters and indices, which never wrap around, and serve the
  proofs: the program's loops, entered at a counter of value at most \<open>2^31\<close>, are shown
  below to compute what these compute on the first \<open>2^31\<close> elements of the vector.
\<close>

definition vec_at_nat :: "'a list \<Rightarrow> nat \<Rightarrow> error + 'a" where
  "vec_at_nat v i = (if i < length v then Inr (v ! i) else Inl OutOfBounds)"

definition SIZE_MAX :: nat where
  "SIZE_MAX = 2 ^ 64 - 1"

definition size_minus_one :: "nat \<Rightarrow> nat" where
  "size_minus_one n = (if n = 0 then SIZE_MAX else n - 1)"

function twoSum_inner_nat ::
  "int32 list \<Rightarrow> int32 \<Rightarrow> nat \<Rightarrow> nat \<Rightarrow> error + nat list option" where
  "twoSum_inner_nat nums target i j =
     (if j < length nums then
        (case vec_at_nat nums i of
           Inl e \<Rightarrow> Inl e
         | Inr a \<Rightarrow>
             (case vec_at_nat nums j of
                Inl e \<Rightarrow> Inl e
              | Inr b \<Rightarrow>
                  if a + b = target then Inr (Some [i, j])
                  else twoSum_inner_nat nums target i (j + 1)))
      else Inr None)"
  by pat_completeness auto
termination
  by (relation "measure (\<lambda>(nums, target, i, j). length nums - j)") auto

function twoSum_outer_nat :: "int32 list \<Rightarrow> int32 \<Rightarrow> nat \<Rightarrow> error + nat list option" where
  "twoSum_outer_nat nums target i =
     (if i < size_minus_one (length nums) then
        (case twoSum_inner_nat nums target i (i + 1) of
           Inl e \<Rightarrow> Inl e
         | Inr (Some r) \<Rightarrow> Inr (Some r)
         | Inr None \<Rightarrow> twoSum_outer_nat nums target (i + 1))
      else Inr None)"
  by pat_completeness auto
termination
  by (relation "measure (\<lambda>(nums, target, i). size_minus_one (length nums) - i)") auto

definition twoSum_nat :: "int32 list \<Rightarrow> int32 \<Rightarrow> error + nat list" where
  "twoSum_nat nums target =
     (if length nums < 2 then Inr []
      else
        (case twoSum_outer_nat nums target 0 of
           Inl e \<Rightarrow> Inl e
         | Inr (Some r) \<Rightarrow> Inr r
         | Inr None \<Rightarrow> Inr []))"

definition emplace_nat :: "(int32 \<rightharpoonup> nat) \<Rightarrow> int32 \<Rightarrow> nat \<Rightarrow> (int32 \<rightharpoonup> nat)" where
  "emplace_nat cache k v = (if cache k = None then cache(k \<mapsto> v) else cache)"

function twoSum2_loop_nat ::
  "int32 list \<Rightarrow> int32 \<Rightarrow> (int32 \<rightharpoonup> nat) \<Rightarrow> nat \<Rightarrow> error + nat list option" where
  "twoSum2_loop_nat nums target cache i =
     (if i < length nums then
        (case vec_at_nat nums i of
           Inl e \<Rightarrow> Inl e
         | Inr num \<Rightarrow>
             (case cache (target - num) of
                Some k \<Rightarrow> Inr (Some [k, i])
              | None \<Rightarrow> twoSum2_loop_nat nums target (emplace_nat cache num i) (i + 1)))
      else Inr None)"
  by pat_completeness auto
termination
  by (relation "measure (\<lambda>(nums, target, cache, i). length nums - i)") auto

definition twoSum2_nat :: "int32 list \<Rightarrow> int32 \<Rightarrow> error + nat list" where
  "twoSum2_nat nums target =
     (if length nums < 2 then Inr []
      else
        (case twoSum2_loop_nat nums target Map.empty 0 of
           Inl e \<Rightarrow> Inl e
         | Inr (Some r) \<Rightarrow> Inr r
         | Inr None \<Rightarrow> Inr []))"

text \<open>The part of a vector that an \<open>int\<close> counter can reach: its first \<open>2^31\<close> elements.\<close>

definition first_part :: "'a list \<Rightarrow> 'a list" where
  "first_part v = take (2 ^ 31) v"

text \<open>
  The indices of the unbounded searches as \<open>int\<close> values: in a map, in the result of a
  loop and in the result of an operation.
\<close>

definition cache_as_int :: "(int32 \<rightharpoonup> nat) \<Rightarrow> (int32 \<rightharpoonup> int32)" where
  "cache_as_int c = (\<lambda>v. map_option of_nat (c v))"

definition as_int_loop :: "error + nat list option \<Rightarrow> error + int32 list option" where
  "as_int_loop = map_sum id (map_option (map of_nat))"

definition as_int :: "error + nat list \<Rightarrow> error + int32 list" where
  "as_int = map_sum id (map of_nat)"

section \<open>Vocabulary of the properties\<close>

text \<open>
  \<open>pair_sums nums target i j\<close>: \<open>(i, j)\<close> is a pair of positions of \<open>nums\<close>, the
  smaller one first, whose values add up to \<open>target\<close> in \<open>int\<close> arithmetic.
\<close>

definition pair_sums :: "int32 list \<Rightarrow> int32 \<Rightarrow> nat \<Rightarrow> nat \<Rightarrow> bool" where
  "pair_sums nums target i j = (i < j \<and> j < length nums \<and> nums ! i + nums ! j = target)"

text \<open>
  \<open>first_brute nums target i j\<close>: \<open>(i, j)\<close> is the least such pair when pairs are
  compared by their first index and then by their second.
\<close>

definition first_brute :: "int32 list \<Rightarrow> int32 \<Rightarrow> nat \<Rightarrow> nat \<Rightarrow> bool" where
  "first_brute nums target i j =
     (pair_sums nums target i j \<and>
      (\<forall>a b. pair_sums nums target a b \<longrightarrow> i < a \<or> (i = a \<and> j \<le> b)))"

text \<open>
  \<open>no_pair nums target\<close>: no pair of positions sums to \<open>target\<close>.
\<close>

definition no_pair :: "int32 list \<Rightarrow> int32 \<Rightarrow> bool" where
  "no_pair nums target = (\<forall>a b. \<not> pair_sums nums target a b)"

text \<open>
  \<open>first_index nums v k\<close>: position \<open>k\<close> holds the value \<open>v\<close> and no earlier position
  does.
\<close>

definition first_index :: "int32 list \<Rightarrow> int32 \<Rightarrow> nat \<Rightarrow> bool" where
  "first_index nums v k = (nums ! k = v \<and> (\<forall>k'<k. nums ! k' \<noteq> v))"

text \<open>
  \<open>cache_inv_nat nums cache i\<close>: what the map of the unbounded search holds when the
  loop is at position \<open>i\<close>: exactly the values at the positions below \<open>i\<close>, each with
  its first position. \<open>cache_inv\<close> below says the same of the program's map, whose
  values are \<open>int\<close>.
\<close>

definition cache_inv_nat :: "int32 list \<Rightarrow> (int32 \<rightharpoonup> nat) \<Rightarrow> nat \<Rightarrow> bool" where
  "cache_inv_nat nums cache i =
     (\<forall>v k. cache v = Some k \<longleftrightarrow> k < i \<and> first_index nums v k)"

text \<open>
  \<open>first_indexed nums target i j\<close>: \<open>(i, j)\<close> is the least pair that sums to \<open>target\<close>
  when pairs are compared by their second index and then by their first.
\<close>

definition first_indexed :: "int32 list \<Rightarrow> int32 \<Rightarrow> nat \<Rightarrow> nat \<Rightarrow> bool" where
  "first_indexed nums target i j =
     (pair_sums nums target i j \<and>
      (\<forall>a b. pair_sums nums target a b \<longrightarrow> j < b \<or> (j = b \<and> i \<le> a)))"

text \<open>
  The specification describes its brute-force operation \<open>find_pair_brute\<close> as a scan:
  an input of length below 2 gives the empty result; otherwise all index pairs \<open>(i, j)\<close>
  with \<open>0 \<le> i < j < length\<close> are visited in row-major order (\<open>i\<close> ascending, for each
  \<open>i\<close> the index \<open>j\<close> ascending from \<open>i + 1\<close>) and the first pair whose values sum to
  the target is the result. The two definitions below say this with a list of the pairs
  in that order; they are compared with \<open>twoSum\<close> in C3.
\<close>

definition spec_row_major_pairs :: "nat \<Rightarrow> (nat \<times> nat) list" where
  "spec_row_major_pairs n = concat (map (\<lambda>i. map (Pair i) [i + 1..<n]) [0..<n])"

definition spec_find_pair_brute :: "int32 list \<Rightarrow> int32 \<Rightarrow> nat list" where
  "spec_find_pair_brute sequence target =
     (if length sequence < 2 then []
      else
        (case List.find (\<lambda>(i, j). sequence ! i + sequence ! j = target)
                (spec_row_major_pairs (length sequence)) of
           None \<Rightarrow> []
         | Some (i, j) \<Rightarrow> [i, j]))"

text \<open>
  \<open>has_solution nums target\<close>: two distinct positions of \<open>nums\<close>, in either order, hold
  values that sum to \<open>target\<close>.
\<close>

definition has_solution :: "int32 list \<Rightarrow> int32 \<Rightarrow> bool" where
  "has_solution nums target =
     (\<exists>i j. i < length nums \<and> j < length nums \<and> i \<noteq> j \<and> nums ! i + nums ! j = target)"

text \<open>
  \<open>cache_inv nums cache n\<close>: the map of \<open>twoSum2\<close> holds exactly the values at the
  positions below \<open>n\<close>, each with its first position as an \<open>int\<close>.
\<close>

definition cache_inv :: "int32 list \<Rightarrow> (int32 \<rightharpoonup> int32) \<Rightarrow> nat \<Rightarrow> bool" where
  "cache_inv nums cache n =
     (\<forall>v k. cache v = Some k \<longleftrightarrow> unat k < n \<and> first_index nums v (unat k))"

section \<open>The unbounded loops, characterised\<close>

text \<open>The defining equations of the loops are applied one step at a time.\<close>

declare twoSum_inner_nat.simps [simp del] twoSum_outer_nat.simps [simp del]
  twoSum2_loop_nat.simps [simp del]
declare twoSum_inner.simps [simp del] twoSum_outer.simps [simp del] twoSum2_loop.simps [simp del]
declare twoSum_inner_st.simps [simp del] twoSum_outer_st.simps [simp del]
  twoSum2_loop_st.simps [simp del]

lemma twoSum_inner_nat_end:
  "\<not> j < length nums \<Longrightarrow> twoSum_inner_nat nums target i j = Inr None"
  by (subst twoSum_inner_nat.simps) simp

lemma twoSum_inner_nat_step:
  "i < j \<Longrightarrow> j < length nums \<Longrightarrow>
   twoSum_inner_nat nums target i j =
     (if nums ! i + nums ! j = target then Inr (Some [i, j])
      else twoSum_inner_nat nums target i (j + 1))"
  by (subst twoSum_inner_nat.simps) (simp add: vec_at_nat_def)

lemma twoSum_inner_nat_cases:
  assumes "i < j"
  shows "(\<exists>j'. j \<le> j' \<and> pair_sums nums target i j' \<and>
            (\<forall>k. j \<le> k \<and> k < j' \<longrightarrow> nums ! i + nums ! k \<noteq> target) \<and>
            twoSum_inner_nat nums target i j = Inr (Some [i, j']))
       \<or> ((\<forall>k. j \<le> k \<and> k < length nums \<longrightarrow> nums ! i + nums ! k \<noteq> target) \<and>
            twoSum_inner_nat nums target i j = Inr None)"
  using assms
proof (induction "length nums - j" arbitrary: j)
  case 0
  then have "\<not> j < length nums" by simp
  then show ?case by (auto simp: twoSum_inner_nat_end)
next
  case (Suc n)
  then have jlt: "j < length nums" by simp
  show ?case
  proof (cases "nums ! i + nums ! j = target")
    case True
    with Suc.prems jlt have "pair_sums nums target i j"
      and "twoSum_inner_nat nums target i j = Inr (Some [i, j])"
      by (simp_all add: pair_sums_def twoSum_inner_nat_step)
    then show ?thesis by auto
  next
    case False
    from Suc.hyps(2) have n: "n = length nums - (j + 1)" by simp
    from Suc.prems have "i < j + 1" by simp
    note IH = Suc.hyps(1) [OF n this]
    from False Suc.prems jlt
    have eq: "twoSum_inner_nat nums target i j = twoSum_inner_nat nums target i (j + 1)"
      by (simp add: twoSum_inner_nat_step)
    have widen: "\<And>k. j \<le> k \<Longrightarrow> k \<noteq> j \<Longrightarrow> j + 1 \<le> k" by simp
    from IH show ?thesis
    proof
      assume "\<exists>j'. j + 1 \<le> j' \<and> pair_sums nums target i j' \<and>
            (\<forall>k. j + 1 \<le> k \<and> k < j' \<longrightarrow> nums ! i + nums ! k \<noteq> target) \<and>
            twoSum_inner_nat nums target i (j + 1) = Inr (Some [i, j'])"
      then obtain j' where j': "j + 1 \<le> j'" "pair_sums nums target i j'"
        "\<forall>k. j + 1 \<le> k \<and> k < j' \<longrightarrow> nums ! i + nums ! k \<noteq> target"
        "twoSum_inner_nat nums target i (j + 1) = Inr (Some [i, j'])" by blast
      have "\<forall>k. j \<le> k \<and> k < j' \<longrightarrow> nums ! i + nums ! k \<noteq> target"
      proof (intro allI impI)
        fix k assume k: "j \<le> k \<and> k < j'"
        show "nums ! i + nums ! k \<noteq> target"
        proof (cases "k = j")
          case True with False show ?thesis by simp
        next
          case False with k j'(3) show ?thesis by simp
        qed
      qed
      with j' eq have "j \<le> j' \<and> pair_sums nums target i j' \<and>
            (\<forall>k. j \<le> k \<and> k < j' \<longrightarrow> nums ! i + nums ! k \<noteq> target) \<and>
            twoSum_inner_nat nums target i j = Inr (Some [i, j'])" by simp
      then show ?thesis by blast
    next
      assume a: "(\<forall>k. j + 1 \<le> k \<and> k < length nums \<longrightarrow> nums ! i + nums ! k \<noteq> target) \<and>
            twoSum_inner_nat nums target i (j + 1) = Inr None"
      have "\<forall>k. j \<le> k \<and> k < length nums \<longrightarrow> nums ! i + nums ! k \<noteq> target"
      proof (intro allI impI)
        fix k assume k: "j \<le> k \<and> k < length nums"
        show "nums ! i + nums ! k \<noteq> target"
        proof (cases "k = j")
          case True with False show ?thesis by simp
        next
          case False with k a show ?thesis by simp
        qed
      qed
      with a eq show ?thesis by simp
    qed
  qed
qed

lemma twoSum_outer_nat_end:
  "\<not> i < size_minus_one (length nums) \<Longrightarrow> twoSum_outer_nat nums target i = Inr None"
  by (subst twoSum_outer_nat.simps) simp

lemma twoSum_outer_nat_step:
  "i < size_minus_one (length nums) \<Longrightarrow>
   twoSum_outer_nat nums target i =
     (case twoSum_inner_nat nums target i (i + 1) of
        Inl e \<Rightarrow> Inl e
      | Inr (Some r) \<Rightarrow> Inr (Some r)
      | Inr None \<Rightarrow> twoSum_outer_nat nums target (i + 1))"
  by (subst twoSum_outer_nat.simps) simp

lemma twoSum_outer_nat_cases:
  assumes "\<forall>a b. pair_sums nums target a b \<longrightarrow> i \<le> a" and "0 < length nums"
  shows "(\<exists>i' j'. first_brute nums target i' j' \<and>
            twoSum_outer_nat nums target i = Inr (Some [i', j']))
       \<or> (no_pair nums target \<and> twoSum_outer_nat nums target i = Inr None)"
  using assms(1)
proof (induction "size_minus_one (length nums) - i" arbitrary: i)
  case 0
  with assms(2) have "length nums \<le> i + 1" by (simp add: size_minus_one_def)
  with 0 have "no_pair nums target"
    by (fastforce simp: no_pair_def pair_sums_def)
  moreover from 0 have "twoSum_outer_nat nums target i = Inr None"
    by (simp add: twoSum_outer_nat_end)
  ultimately show ?case by simp
next
  case (Suc n)
  then have ilt: "i < size_minus_one (length nums)" by simp
  from twoSum_inner_nat_cases [of i "i + 1" nums target]
  consider
    (found) j' where "i + 1 \<le> j'" "pair_sums nums target i j'"
      "\<forall>k. i + 1 \<le> k \<and> k < j' \<longrightarrow> nums ! i + nums ! k \<noteq> target"
      "twoSum_inner_nat nums target i (i + 1) = Inr (Some [i, j'])"
  | (none) "\<forall>k. i + 1 \<le> k \<and> k < length nums \<longrightarrow> nums ! i + nums ! k \<noteq> target"
      "twoSum_inner_nat nums target i (i + 1) = Inr None"
    by auto
  then show ?case
  proof cases
    case found
    have "first_brute nums target i j'"
      unfolding first_brute_def
    proof (intro conjI allI impI)
      show "pair_sums nums target i j'" by (rule found(2))
    next
      fix a b assume ab: "pair_sums nums target a b"
      with Suc.prems have "i \<le> a" by blast
      moreover have "j' \<le> b" if "i = a"
      proof (rule ccontr)
        assume "\<not> j' \<le> b"
        with ab that have "i + 1 \<le> b \<and> b < j'" by (simp add: pair_sums_def)
        with found(3) have "nums ! i + nums ! b \<noteq> target" by blast
        with ab that show False by (simp add: pair_sums_def)
      qed
      ultimately show "i < a \<or> (i = a \<and> j' \<le> b)" by auto
    qed
    moreover from ilt found(4) have "twoSum_outer_nat nums target i = Inr (Some [i, j'])"
      by (simp add: twoSum_outer_nat_step)
    ultimately show ?thesis by blast
  next
    case none
    from Suc.hyps(2) have n: "n = size_minus_one (length nums) - (i + 1)" by simp
    have "\<forall>a b. pair_sums nums target a b \<longrightarrow> i + 1 \<le> a"
    proof (intro allI impI)
      fix a b assume ab: "pair_sums nums target a b"
      with Suc.prems have "i \<le> a" by blast
      moreover have "a \<noteq> i"
      proof
        assume "a = i"
        with ab have "i + 1 \<le> b \<and> b < length nums" "nums ! i + nums ! b = target"
          by (simp_all add: pair_sums_def)
        with none(1) show False by blast
      qed
      ultimately show "i + 1 \<le> a" by simp
    qed
    note IH = Suc.hyps(1) [OF n this]
    from ilt none(2) have "twoSum_outer_nat nums target i = twoSum_outer_nat nums target (i + 1)"
      by (simp add: twoSum_outer_nat_step)
    with IH show ?thesis by simp
  qed
qed

lemma twoSum_nat_cases:
  "(\<exists>i j. first_brute nums target i j \<and> twoSum_nat nums target = Inr [i, j])
   \<or> (no_pair nums target \<and> twoSum_nat nums target = Inr [])"
proof (cases "length nums < 2")
  case True
  then have "no_pair nums target" by (auto simp: no_pair_def pair_sums_def)
  with True show ?thesis by (simp add: twoSum_nat_def)
next
  case False
  then have "0 < length nums" by arith
  from twoSum_outer_nat_cases [of nums target 0, OF _ this] False
  show ?thesis by (auto simp: twoSum_nat_def)
qed

lemma twoSum2_loop_nat_end:
  "\<not> i < length nums \<Longrightarrow> twoSum2_loop_nat nums target cache i = Inr None"
  by (subst twoSum2_loop_nat.simps) simp

lemma twoSum2_loop_nat_hit:
  "i < length nums \<Longrightarrow> cache (target - nums ! i) = Some k \<Longrightarrow>
   twoSum2_loop_nat nums target cache i = Inr (Some [k, i])"
  by (subst twoSum2_loop_nat.simps) (simp add: vec_at_nat_def)

lemma twoSum2_loop_nat_miss:
  "i < length nums \<Longrightarrow> cache (target - nums ! i) = None \<Longrightarrow>
   twoSum2_loop_nat nums target cache i =
     twoSum2_loop_nat nums target (emplace_nat cache (nums ! i) i) (i + 1)"
  by (subst twoSum2_loop_nat.simps) (simp add: vec_at_nat_def)

lemma cache_inv_nat_empty: "cache_inv_nat nums Map.empty 0"
  by (simp add: cache_inv_nat_def)

lemma first_index_unique:
  "first_index nums v k \<Longrightarrow> first_index nums v k' \<Longrightarrow> k = k'"
  unfolding first_index_def by (metis nat_neq_iff)

lemma first_index_exists:
  assumes "nums ! k = v"
  shows "\<exists>k0\<le>k. first_index nums v k0"
proof -
  let ?k0 = "LEAST k. nums ! k = v"
  from assms have "nums ! ?k0 = v" by (rule LeastI)
  moreover from assms have "?k0 \<le> k" by (rule Least_le)
  moreover have "\<forall>k'<?k0. nums ! k' \<noteq> v" using not_less_Least by blast
  ultimately show ?thesis unfolding first_index_def by blast
qed

lemma cache_inv_nat_None:
  assumes "cache_inv_nat nums cache i" and "cache v = None"
  shows "\<forall>k<i. nums ! k \<noteq> v"
proof (intro allI impI notI)
  fix k assume "k < i" "nums ! k = v"
  from first_index_exists [OF this(2)] obtain k0 where "k0 \<le> k" "first_index nums v k0"
    by blast
  with \<open>k < i\<close> assms(1) have "cache v = Some k0" by (simp add: cache_inv_nat_def)
  with assms(2) show False by simp
qed

lemma cache_inv_nat_emplace_nat:
  assumes "cache_inv_nat nums cache i"
  shows "cache_inv_nat nums (emplace_nat cache (nums ! i) i) (Suc i)"
  unfolding cache_inv_nat_def
proof (intro allI)
  fix v k
  show "emplace_nat cache (nums ! i) i v = Some k \<longleftrightarrow> k < Suc i \<and> first_index nums v k"
  proof (cases "v = nums ! i")
    case False
    then have "emplace_nat cache (nums ! i) i v = cache v" by (simp add: emplace_nat_def)
    moreover from False have "first_index nums v k \<Longrightarrow> k \<noteq> i"
      by (auto simp: first_index_def)
    moreover from assms have "cache v = Some k \<longleftrightarrow> k < i \<and> first_index nums v k"
      by (simp add: cache_inv_nat_def)
    ultimately show ?thesis by (auto simp: less_Suc_eq)
  next
    case True
    show ?thesis
    proof (cases "cache v")
      case None
      with assms have "\<forall>k<i. nums ! k \<noteq> v" by (rule cache_inv_nat_None)
      with True have fi: "first_index nums v i" by (simp add: first_index_def)
      from None True have "emplace_nat cache (nums ! i) i v = Some i" by (simp add: emplace_nat_def)
      then have "emplace_nat cache (nums ! i) i v = Some k \<longleftrightarrow> k = i" by auto
      also have "k = i \<longleftrightarrow> k < Suc i \<and> first_index nums v k"
        using fi first_index_unique [OF fi, of k] by blast
      finally show ?thesis .
    next
      case (Some k0)
      with assms have k0: "k0 < i" "first_index nums v k0" by (simp_all add: cache_inv_nat_def)
      from Some True have "emplace_nat cache (nums ! i) i v = Some k0" by (simp add: emplace_nat_def)
      then have "emplace_nat cache (nums ! i) i v = Some k \<longleftrightarrow> k = k0" by auto
      also have "k = k0 \<longleftrightarrow> k < Suc i \<and> first_index nums v k"
        using k0 first_index_unique [OF k0(2), of k] by auto
      finally show ?thesis .
    qed
  qed
qed

lemma sum_eq_iff_partner: "a + b = target \<longleftrightarrow> a = target - b" for a b target :: int32
  by auto

lemma twoSum2_loop_nat_cases:
  assumes "cache_inv_nat nums cache i" and "\<forall>a b. pair_sums nums target a b \<longrightarrow> i \<le> b"
  shows "(\<exists>i' j'. first_indexed nums target i' j' \<and>
            twoSum2_loop_nat nums target cache i = Inr (Some [i', j']))
       \<or> (no_pair nums target \<and> twoSum2_loop_nat nums target cache i = Inr None)"
  using assms
proof (induction "length nums - i" arbitrary: i cache)
  case 0
  then have "no_pair nums target" by (fastforce simp: no_pair_def pair_sums_def)
  moreover from 0 have "twoSum2_loop_nat nums target cache i = Inr None"
    by (simp add: twoSum2_loop_nat_end)
  ultimately show ?case by simp
next
  case (Suc n)
  then have ilt: "i < length nums" by simp
  show ?case
  proof (cases "cache (target - nums ! i)")
    case (Some k)
    with Suc.prems(1) have k: "k < i" "first_index nums (target - nums ! i) k"
      by (simp_all add: cache_inv_nat_def)
    have "first_indexed nums target k i"
      unfolding first_indexed_def
    proof (intro conjI allI impI)
      from k ilt show "pair_sums nums target k i"
        by (simp add: pair_sums_def first_index_def sum_eq_iff_partner)
    next
      fix a b assume ab: "pair_sums nums target a b"
      with Suc.prems(2) have "i \<le> b" by blast
      moreover have "k \<le> a" if "i = b"
      proof (rule ccontr)
        assume "\<not> k \<le> a"
        with k(2) have "nums ! a \<noteq> target - nums ! i" by (simp add: first_index_def)
        with ab that show False by (simp add: pair_sums_def sum_eq_iff_partner)
      qed
      ultimately show "i < b \<or> (i = b \<and> k \<le> a)" by auto
    qed
    moreover from ilt Some have "twoSum2_loop_nat nums target cache i = Inr (Some [k, i])"
      by (rule twoSum2_loop_nat_hit)
    ultimately show ?thesis by blast
  next
    case None
    from Suc.hyps(2) have n: "n = length nums - (i + 1)" by simp
    from Suc.prems(1) have inv: "cache_inv_nat nums (emplace_nat cache (nums ! i) i) (i + 1)"
      using cache_inv_nat_emplace_nat by simp
    from Suc.prems(1) None have miss: "\<forall>k<i. nums ! k \<noteq> target - nums ! i"
      by (rule cache_inv_nat_None)
    have "\<forall>a b. pair_sums nums target a b \<longrightarrow> i + 1 \<le> b"
    proof (intro allI impI)
      fix a b assume ab: "pair_sums nums target a b"
      with Suc.prems(2) have "i \<le> b" by blast
      moreover have "b \<noteq> i"
      proof
        assume "b = i"
        with ab have "a < i" "nums ! a = target - nums ! i"
          by (simp_all add: pair_sums_def sum_eq_iff_partner)
        with miss show False by blast
      qed
      ultimately show "i + 1 \<le> b" by simp
    qed
    note IH = Suc.hyps(1) [OF n inv this]
    from ilt None have "twoSum2_loop_nat nums target cache i =
        twoSum2_loop_nat nums target (emplace_nat cache (nums ! i) i) (i + 1)"
      by (rule twoSum2_loop_nat_miss)
    with IH show ?thesis by simp
  qed
qed

lemma twoSum2_nat_cases:
  "(\<exists>i j. first_indexed nums target i j \<and> twoSum2_nat nums target = Inr [i, j])
   \<or> (no_pair nums target \<and> twoSum2_nat nums target = Inr [])"
proof (cases "length nums < 2")
  case True
  then have "no_pair nums target" by (auto simp: no_pair_def pair_sums_def)
  with True show ?thesis by (simp add: twoSum2_nat_def)
next
  case False
  from twoSum2_loop_nat_cases [of nums Map.empty 0 target, OF cache_inv_nat_empty] False
  show ?thesis by (auto simp: twoSum2_nat_def)
qed

lemma has_solution_iff: "has_solution nums target \<longleftrightarrow> (\<exists>i j. pair_sums nums target i j)"
proof
  assume "has_solution nums target"
  then obtain i j where ij: "i < length nums" "j < length nums" "i \<noteq> j"
    "nums ! i + nums ! j = target"
    unfolding has_solution_def by blast
  show "\<exists>i j. pair_sums nums target i j"
  proof (cases "i < j")
    case True
    with ij have "pair_sums nums target i j" by (simp add: pair_sums_def)
    then show ?thesis by blast
  next
    case False
    with ij have "pair_sums nums target j i" by (simp add: pair_sums_def add.commute)
    then show ?thesis by blast
  qed
next
  assume "\<exists>i j. pair_sums nums target i j"
  then show "has_solution nums target"
    unfolding has_solution_def pair_sums_def
    by (metis less_trans nat_neq_iff)
qed

lemma no_pair_iff: "no_pair nums target \<longleftrightarrow> \<not> has_solution nums target"
  by (simp add: has_solution_iff no_pair_def)

subsection \<open>The brute-force loops as a scan of the row-major list of pairs\<close>

lemma find_append_cases:
  "List.find P (xs @ ys) = (case List.find P xs of None \<Rightarrow> List.find P ys | Some x \<Rightarrow> Some x)"
  by (induction xs) simp_all

lemma twoSum_inner_nat_scan:
  assumes "i < j"
  shows "twoSum_inner_nat nums target i j =
           Inr (map_option (\<lambda>(a, b). [a, b])
             (List.find (\<lambda>(a, b). nums ! a + nums ! b = target) (map (Pair i) [j..<length nums])))"
  using assms
proof (induction "length nums - j" arbitrary: j)
  case 0
  then show ?case by (simp add: twoSum_inner_nat_end)
next
  case (Suc n)
  then have jlt: "j < length nums" by simp
  from Suc.hyps(2) have n: "n = length nums - (j + 1)" by simp
  from Suc.prems have "i < j + 1" by simp
  note IH = Suc.hyps(1) [OF n this]
  from jlt have "[j..<length nums] = j # [j + 1..<length nums]"
    by (simp add: upt_conv_Cons)
  with IH Suc.prems jlt show ?case by (simp add: twoSum_inner_nat_step)
qed

lemma twoSum_outer_nat_scan:
  assumes "0 < length nums"
  shows "twoSum_outer_nat nums target i =
           Inr (map_option (\<lambda>(a, b). [a, b])
             (List.find (\<lambda>(a, b). nums ! a + nums ! b = target)
               (concat (map (\<lambda>i. map (Pair i) [i + 1..<length nums]) [i..<length nums]))))"
proof (induction "size_minus_one (length nums) - i" arbitrary: i)
  case 0
  with assms have le: "length nums \<le> i + 1" by (simp add: size_minus_one_def)
  have none: "concat (map (\<lambda>i. map (Pair i) [i + 1..<length nums]) [i..<length nums]) = []"
  proof (cases "i < length nums")
    case True
    with le have "[i..<length nums] = [i]" by (simp add: upt_conv_Cons)
    with le show ?thesis by simp
  next
    case False
    then show ?thesis by simp
  qed
  from 0 have "twoSum_outer_nat nums target i = Inr None"
    by (simp add: twoSum_outer_nat_end)
  then show ?case unfolding none by simp
next
  case (Suc n)
  then have ilt: "i < size_minus_one (length nums)" by simp
  with assms have ilen: "i < length nums" by (simp add: size_minus_one_def)
  from Suc.hyps(2) have n: "n = size_minus_one (length nums) - (i + 1)" by simp
  note IH = Suc.hyps(1) [OF n]
  from ilen have "[i..<length nums] = i # [i + 1..<length nums]"
    by (simp add: upt_conv_Cons)
  with IH ilt show ?case
    by (simp add: twoSum_outer_nat_step twoSum_inner_nat_scan find_append_cases
        split: option.splits)
qed

lemma twoSum_nat_refines_scan: "twoSum_nat nums target = Inr (spec_find_pair_brute nums target)"
proof (cases "length nums < 2")
  case True
  then show ?thesis by (simp add: twoSum_nat_def spec_find_pair_brute_def)
next
  case False
  then have "0 < length nums" by arith
  from twoSum_outer_nat_scan [OF this, of target 0] False show ?thesis
    by (simp add: twoSum_nat_def spec_find_pair_brute_def spec_row_major_pairs_def
        split: option.splits prod.splits)
qed

subsection \<open>Sums of \<open>int\<close> values\<close>

text \<open>
  Equality of the wrapped sum with \<open>target\<close> is equality of the integers that the
  words stand for whenever the sum of the two integers is itself an \<open>int\<close>.
\<close>

lemma int_sum_no_overflow:
  fixes a b t :: int32
  assumes "a + b = t" and "- (2 ^ 31) \<le> sint a + sint b" and "sint a + sint b < 2 ^ 31"
  shows "sint a + sint b = sint t"
proof -
  have "sint (a + b) = signed_take_bit 31 (sint a + sint b)"
    by (simp add: sint_word_ariths)
  also from assms(2,3) have "\<dots> = sint a + sint b"
    by (rule signed_take_bit_int_eq_self)
  finally show ?thesis using assms(1) by simp
qed

section \<open>The program's loops against the unbounded ones\<close>

subsection \<open>Counters and sizes\<close>

lemma sint_of_nat_small:
  assumes "j < 2 ^ 31"
  shows "sint (of_nat j :: int32) = int j"
proof -
  from assms have "- (2 ^ 31) \<le> int j" "int j < 2 ^ 31" by simp_all
  then have "signed_take_bit 31 (int j) = int j" by (rule signed_take_bit_int_eq_self)
  then show ?thesis by (simp add: signed_of_nat)
qed

lemma to_size_t_of_nat:
  assumes "j < 2 ^ 31"
  shows "to_size_t (of_nat j) = of_nat j"
  using assms by (simp add: to_size_t_def scast_eq sint_of_nat_small)

lemma unat_to_size_t_of_nat:
  assumes "j < 2 ^ 31"
  shows "unat (to_size_t (of_nat j)) = j"
  using assms by (simp add: to_size_t_of_nat unat_of_nat)

lemma to_size_t_int_min: "unat (to_size_t (of_nat (2 ^ 31))) = 2 ^ 64 - 2 ^ 31"
  by (simp add: to_size_t_def)

lemma unat_vec_size:
  assumes "length v \<le> PTRDIFF_MAX"
  shows "unat (vec_size v) = length v"
  using assms by (simp add: vec_size_def unat_of_nat PTRDIFF_MAX_def)

lemma unat_vec_size_minus_one:
  assumes "length v \<le> PTRDIFF_MAX" and "0 < length v"
  shows "unat (vec_size v - 1) = length v - 1"
proof -
  from assms have "vec_size v \<noteq> 0" using unat_vec_size [OF assms(1)] by auto
  then have "unat (vec_size v - 1) = unat (vec_size v) - 1" by (rule unat_minus_one)
  with unat_vec_size [OF assms(1)] show ?thesis by simp
qed

lemma first_part_less:
  "j < length (first_part v) \<longleftrightarrow> j < 2 ^ 31 \<and> j < length v"
  by (auto simp: first_part_def)

lemma first_part_nth:
  "j < length (first_part v) \<Longrightarrow> first_part v ! j = v ! j"
  by (simp add: first_part_def)

lemma first_part_all:
  "length v \<le> 2 ^ 31 \<Longrightarrow> first_part v = v"
  by (simp add: first_part_def)

lemma first_part_length_le: "length (first_part v) \<le> 2 ^ 31"
  by (simp add: first_part_def)

lemma first_part_two: "2 \<le> length v \<Longrightarrow> 2 \<le> length (first_part v)"
  by (simp add: first_part_def)

lemma first_part_short: "length (first_part v) < 2 \<longleftrightarrow> length v < 2"
  by (auto simp: first_part_def min_def)

lemma size_minus_one_pos: "2 \<le> n \<Longrightarrow> size_minus_one n = n - 1"
  by (simp add: size_minus_one_def)

lemma loop_cond:
  assumes "length nums \<le> PTRDIFF_MAX" and "j \<le> 2 ^ 31"
  shows "to_size_t (of_nat j) < vec_size nums \<longleftrightarrow> j < length (first_part nums)"
proof (cases "j < 2 ^ 31")
  case True
  then show ?thesis
    by (simp add: word_less_nat_alt unat_vec_size [OF assms(1)] unat_to_size_t_of_nat
        first_part_less)
next
  case False
  with assms(2) have j: "j = 2 ^ 31" by simp
  from assms(1) have "\<not> (2 ^ 64 - 2 ^ 31 :: nat) < length nums"
    by (simp add: PTRDIFF_MAX_def)
  then show ?thesis
    unfolding j word_less_nat_alt unat_vec_size [OF assms(1)] to_size_t_int_min
      first_part_less by simp
qed

lemma outer_cond:
  assumes "length nums \<le> PTRDIFF_MAX" and "0 < length nums" and "i \<le> 2 ^ 31"
  shows "to_size_t (of_nat i) < vec_size nums - 1 \<longleftrightarrow> i < 2 ^ 31 \<and> i < length nums - 1"
proof (cases "i < 2 ^ 31")
  case True
  then show ?thesis
    by (simp add: word_less_nat_alt unat_vec_size_minus_one [OF assms(1,2)]
        unat_to_size_t_of_nat)
next
  case False
  with assms(3) have i: "i = 2 ^ 31" by simp
  from assms(1) have "\<not> (2 ^ 64 - 2 ^ 31 :: nat) < length nums - 1"
    by (simp add: PTRDIFF_MAX_def)
  then show ?thesis
    unfolding i word_less_nat_alt unat_vec_size_minus_one [OF assms(1,2)] to_size_t_int_min
    by simp
qed

lemma read_first_part:
  assumes "j < length (first_part nums)"
  shows "vec_at nums (to_size_t (of_nat j)) = Inr (first_part nums ! j)"
proof -
  from assms have "j < 2 ^ 31" "j < length nums" by (simp_all add: first_part_less)
  then show ?thesis
    by (simp add: vec_at_def unat_to_size_t_of_nat first_part_nth [OF assms])
qed

subsection \<open>The inner loop of \<open>twoSum\<close>\<close>

lemma twoSum_inner_end:
  assumes "length nums \<le> PTRDIFF_MAX" and "j \<le> 2 ^ 31"
    and "\<not> j < length (first_part nums)"
  shows "twoSum_inner nums target i (of_nat j) = Inr None"
proof -
  from loop_cond [OF assms(1,2)] assms(3)
  have "\<not> to_size_t (of_nat j) < vec_size nums" by simp
  then show ?thesis by (subst twoSum_inner.simps) simp
qed

lemma twoSum_inner_step:
  assumes "length nums \<le> PTRDIFF_MAX" and "i < j" and "j < length (first_part nums)"
  shows "twoSum_inner nums target (of_nat i) (of_nat j) =
           (if first_part nums ! i + first_part nums ! j = target
            then Inr (Some [of_nat i, of_nat j])
            else twoSum_inner nums target (of_nat i) (of_nat (j + 1)))"
proof -
  from assms(3) have j: "j \<le> 2 ^ 31" by (simp add: first_part_less)
  from assms(2,3) have i: "i < length (first_part nums)" by simp
  from loop_cond [OF assms(1) j] assms(3)
  have cond: "to_size_t (of_nat j) < vec_size nums" by simp
  have next_j: "(of_nat j :: int32) + 1 = of_nat (j + 1)" by simp
  show ?thesis
    by (subst twoSum_inner.simps)
       (simp only: cond if_True read_first_part [OF i] read_first_part [OF assms(3)]
          sum.case next_j)
qed

lemma twoSum_inner_sim:
  assumes "length nums \<le> PTRDIFF_MAX" and "i < j" and "j \<le> 2 ^ 31"
  shows "twoSum_inner nums target (of_nat i) (of_nat j) =
           as_int_loop (twoSum_inner_nat (first_part nums) target i j)"
  using assms(2,3)
proof (induction "length (first_part nums) - j" arbitrary: j)
  case 0
  then have stop: "\<not> j < length (first_part nums)" by simp
  show ?case
    unfolding twoSum_inner_end [OF assms(1) 0(3) stop] twoSum_inner_nat_end [OF stop]
    by (simp add: as_int_loop_def)
next
  case (Suc n)
  then have jlt: "j < length (first_part nums)" by simp
  then have "j + 1 \<le> 2 ^ 31" by (simp add: first_part_less)
  moreover from Suc.hyps(2) have "n = length (first_part nums) - (j + 1)" by simp
  moreover from Suc.prems have "i < j + 1" by simp
  ultimately have IH: "twoSum_inner nums target (of_nat i) (of_nat (j + 1)) =
      as_int_loop (twoSum_inner_nat (first_part nums) target i (j + 1))"
    using Suc.hyps(1) by blast
  show ?case
    unfolding twoSum_inner_step [OF assms(1) Suc.prems(1) jlt]
      twoSum_inner_nat_step [OF Suc.prems(1) jlt]
    using IH by (simp add: as_int_loop_def)
qed

subsection \<open>The outer loop of \<open>twoSum\<close>\<close>

lemma twoSum_outer_end:
  assumes "\<not> to_size_t i < vec_size nums - 1"
  shows "twoSum_outer nums target i = Inr None"
  using assms by (subst twoSum_outer.simps) simp

lemma twoSum_outer_step:
  assumes "to_size_t i < vec_size nums - 1"
  shows "twoSum_outer nums target i =
     (case twoSum_inner nums target i (i + 1) of
        Inl e \<Rightarrow> Inl e
      | Inr (Some r) \<Rightarrow> Inr (Some r)
      | Inr None \<Rightarrow> twoSum_outer nums target (i + 1))"
  using assms by (subst twoSum_outer.simps) simp

lemma twoSum_outer_sim:
  assumes "length nums \<le> PTRDIFF_MAX" and "2 \<le> length nums" and "i \<le> 2 ^ 31"
  shows "twoSum_outer nums target (of_nat i) =
           as_int_loop (twoSum_outer_nat (first_part nums) target i)"
  using assms(3)
proof (induction "2 ^ 31 - i" arbitrary: i)
  case 0
  then have i: "i = 2 ^ 31" by simp
  from assms(2) have pos: "0 < length nums" by arith
  from outer_cond [OF assms(1) pos 0(2)] i
  have "\<not> to_size_t (of_nat i) < vec_size nums - 1" by simp
  then have "twoSum_outer nums target (of_nat i) = Inr None" by (rule twoSum_outer_end)
  have "length (first_part nums) \<le> 2 ^ 31" by (rule first_part_length_le)
  moreover from assms(2) have "2 \<le> length (first_part nums)" by (rule first_part_two)
  ultimately have "\<not> i < size_minus_one (length (first_part nums))"
    using i by (simp add: size_minus_one_pos)
  then have "twoSum_outer_nat (first_part nums) target i = Inr None"
    by (rule twoSum_outer_nat_end)
  with \<open>twoSum_outer nums target (of_nat i) = Inr None\<close> show ?case
    by (simp add: as_int_loop_def)
next
  case (Suc n)
  then have ilt: "i < 2 ^ 31" by simp
  from assms(2) have pos: "0 < length nums" by arith
  from assms(2) have fpos: "2 \<le> length (first_part nums)" by (rule first_part_two)
  then have smo: "size_minus_one (length (first_part nums)) = length (first_part nums) - 1"
    by (rule size_minus_one_pos)
  from Suc.hyps(2) have n: "n = 2 ^ 31 - (i + 1)" by simp
  from ilt have i1: "i + 1 \<le> 2 ^ 31" by simp
  note IH = Suc.hyps(1) [OF n i1]
  have next_i: "(of_nat i :: int32) + 1 = of_nat (i + 1)" by simp
  have wcond: "to_size_t (of_nat i) < vec_size nums - 1 \<longleftrightarrow> i < length nums - 1"
    using outer_cond [OF assms(1) pos Suc.prems] ilt by simp
  show ?case
  proof (cases "i < length (first_part nums) - 1")
    case True
    then have "i < length nums - 1" by (simp add: first_part_def)
    with wcond have w: "to_size_t (of_nat i) < vec_size nums - 1" by simp
    from True smo have nc: "i < size_minus_one (length (first_part nums))" by simp
    have inner: "twoSum_inner nums target (of_nat i) (of_nat (i + 1)) =
        as_int_loop (twoSum_inner_nat (first_part nums) target i (i + 1))"
      by (rule twoSum_inner_sim [OF assms(1) _ i1]) simp
    show ?thesis
      unfolding twoSum_outer_step [OF w] twoSum_outer_nat_step [OF nc] next_i inner IH
      by (simp add: as_int_loop_def split: sum.splits option.splits)
  next
    case False
    with smo have "\<not> i < size_minus_one (length (first_part nums))" by simp
    then have nat_end: "twoSum_outer_nat (first_part nums) target i = Inr None"
      by (rule twoSum_outer_nat_end)
    have "twoSum_outer nums target (of_nat i) = Inr None"
    proof (cases "i < length nums - 1")
      case False
      with wcond have "\<not> to_size_t (of_nat i) < vec_size nums - 1" by simp
      then show ?thesis by (rule twoSum_outer_end)
    next
      case True
      with wcond have w: "to_size_t (of_nat i) < vec_size nums - 1" by simp
      from True \<open>\<not> i < length (first_part nums) - 1\<close> ilt
      have last: "i + 1 = 2 ^ 31" and full: "length (first_part nums) = 2 ^ 31"
        by (auto simp: first_part_def min_def split: if_splits)
      from full last have stop: "\<not> i + 1 < length (first_part nums)" by simp
      have inner: "twoSum_inner nums target (of_nat i) (of_nat (i + 1)) = Inr None"
        by (rule twoSum_inner_end [OF assms(1) i1 stop])
      from outer_cond [OF assms(1) pos i1] last
      have "\<not> to_size_t (of_nat (i + 1)) < vec_size nums - 1" by simp
      then have "twoSum_outer nums target (of_nat (i + 1)) = Inr None"
        by (rule twoSum_outer_end)
      with inner show ?thesis
        unfolding twoSum_outer_step [OF w] next_i by simp
    qed
    with nat_end show ?thesis by (simp add: as_int_loop_def)
  qed
qed

subsection \<open>\<open>twoSum\<close>\<close>

lemma guard_short:
  assumes "length nums \<le> PTRDIFF_MAX"
  shows "vec_size nums < 2 \<longleftrightarrow> length nums < 2"
  by (simp add: word_less_nat_alt unat_vec_size [OF assms])

lemma twoSum_sim:
  assumes "length nums \<le> PTRDIFF_MAX"
  shows "twoSum nums target = as_int (twoSum_nat (first_part nums) target)"
proof (cases "length nums < 2")
  case True
  then show ?thesis
    by (simp add: twoSum_def twoSum_nat_def guard_short [OF assms] first_part_short
        as_int_def)
next
  case False
  then have two: "2 \<le> length nums" by simp
  have "twoSum_outer nums target 0 = as_int_loop (twoSum_outer_nat (first_part nums) target 0)"
    using twoSum_outer_sim [OF assms two, of 0 target] by simp
  with False show ?thesis
    by (simp add: twoSum_def twoSum_nat_def guard_short [OF assms] first_part_short
        as_int_def as_int_loop_def split: sum.splits option.splits)
qed

subsection \<open>\<open>twoSum2\<close>\<close>

lemma twoSum2_loop_end:
  assumes "\<not> to_size_t i < vec_size nums"
  shows "twoSum2_loop nums target cache i = Inr None"
  using assms by (subst twoSum2_loop.simps) simp

lemma twoSum2_loop_hit:
  assumes "to_size_t i < vec_size nums" and "vec_at nums (to_size_t i) = Inr v"
    and "cache (target - v) = Some k"
  shows "twoSum2_loop nums target cache i = Inr (Some [k, i])"
  using assms by (subst twoSum2_loop.simps) simp

lemma twoSum2_loop_miss:
  assumes "to_size_t i < vec_size nums" and "vec_at nums (to_size_t i) = Inr v"
    and "cache (target - v) = None"
  shows "twoSum2_loop nums target cache i =
           twoSum2_loop nums target (emplace cache v i) (i + 1)"
  using assms by (subst twoSum2_loop.simps) simp

lemma cache_as_int_apply: "cache_as_int c v = map_option of_nat (c v)"
  by (simp add: cache_as_int_def)

lemma cache_as_int_empty: "cache_as_int Map.empty = Map.empty"
  by (simp add: cache_as_int_def)

lemma emplace_as_int:
  "emplace (cache_as_int c) v (of_nat i) = cache_as_int (emplace_nat c v i)"
  by (rule ext) (simp add: emplace_def emplace_nat_def cache_as_int_def)

lemma twoSum2_loop_sim:
  assumes "length nums \<le> PTRDIFF_MAX" and "i \<le> 2 ^ 31"
  shows "twoSum2_loop nums target (cache_as_int c) (of_nat i) =
           as_int_loop (twoSum2_loop_nat (first_part nums) target c i)"
  using assms(2)
proof (induction "length (first_part nums) - i" arbitrary: i c)
  case 0
  then have stop: "\<not> i < length (first_part nums)" by simp
  with loop_cond [OF assms(1) 0(2)] have "\<not> to_size_t (of_nat i) < vec_size nums" by simp
  then have w: "twoSum2_loop nums target (cache_as_int c) (of_nat i) = Inr None"
    by (rule twoSum2_loop_end)
  show ?case unfolding w twoSum2_loop_nat_end [OF stop] by (simp add: as_int_loop_def)
next
  case (Suc n)
  then have ilt: "i < length (first_part nums)" by simp
  with loop_cond [OF assms(1) Suc.prems] have cond: "to_size_t (of_nat i) < vec_size nums"
    by simp
  note read = read_first_part [OF ilt]
  have next_i: "(of_nat i :: int32) + 1 = of_nat (i + 1)" by simp
  show ?case
  proof (cases "c (target - first_part nums ! i)")
    case (Some k)
    then have hit: "cache_as_int c (target - first_part nums ! i) = Some (of_nat k)"
      by (simp add: cache_as_int_apply)
    show ?thesis
      unfolding twoSum2_loop_hit [where cache = "cache_as_int c" and target = target, OF cond read hit] twoSum2_loop_nat_hit [where cache = c and target = target, OF ilt Some]
      by (simp add: as_int_loop_def)
  next
    case None
    then have miss: "cache_as_int c (target - first_part nums ! i) = None"
      by (simp add: cache_as_int_apply)
    from ilt have i1: "i + 1 \<le> 2 ^ 31" by (simp add: first_part_less)
    from Suc.hyps(2) have n: "n = length (first_part nums) - (i + 1)" by simp
    note IH = Suc.hyps(1) [OF n i1, of "emplace_nat c (first_part nums ! i) i"]
    show ?thesis
      unfolding twoSum2_loop_miss [where cache = "cache_as_int c" and target = target, OF cond read miss] twoSum2_loop_nat_miss [where cache = c and target = target, OF ilt None]
        emplace_as_int next_i
      by (rule IH)
  qed
qed

lemma twoSum2_sim:
  assumes "length nums \<le> PTRDIFF_MAX"
  shows "twoSum2 nums target = as_int (twoSum2_nat (first_part nums) target)"
proof -
  have "twoSum2_loop nums target Map.empty 0 =
      as_int_loop (twoSum2_loop_nat (first_part nums) target Map.empty 0)"
    using twoSum2_loop_sim [OF assms, of 0 target Map.empty]
    by (simp add: cache_as_int_empty)
  then show ?thesis
    by (simp add: twoSum2_def twoSum2_nat_def guard_short [OF assms] first_part_short
        as_int_def as_int_loop_def split: sum.splits option.splits)
qed

subsection \<open>What the operations return\<close>

lemma pair_sums_first_part:
  "pair_sums (first_part nums) target a b \<longleftrightarrow> pair_sums nums target a b \<and> b < 2 ^ 31"
  by (auto simp: pair_sums_def first_part_less first_part_nth)

lemma twoSum_cases:
  assumes "length nums \<le> PTRDIFF_MAX"
  shows "(\<exists>a b. first_brute (first_part nums) target a b \<and>
            twoSum nums target = Inr [of_nat a, of_nat b])
       \<or> (no_pair (first_part nums) target \<and> twoSum nums target = Inr [])"
proof -
  from twoSum_nat_cases [of "first_part nums" target]
  consider (found) a b where "first_brute (first_part nums) target a b"
      "twoSum_nat (first_part nums) target = Inr [a, b]"
    | (none) "no_pair (first_part nums) target" "twoSum_nat (first_part nums) target = Inr []"
    by blast
  then show ?thesis
  proof cases
    case found
    from found(2) have "twoSum nums target = Inr [of_nat a, of_nat b]"
      unfolding twoSum_sim [OF assms] by (simp add: as_int_def)
    with found(1) show ?thesis by blast
  next
    case none
    from none(2) have "twoSum nums target = Inr []"
      unfolding twoSum_sim [OF assms] by (simp add: as_int_def)
    with none(1) show ?thesis by blast
  qed
qed

lemma twoSum2_cases:
  assumes "length nums \<le> PTRDIFF_MAX"
  shows "(\<exists>a b. first_indexed (first_part nums) target a b \<and>
            twoSum2 nums target = Inr [of_nat a, of_nat b])
       \<or> (no_pair (first_part nums) target \<and> twoSum2 nums target = Inr [])"
proof -
  from twoSum2_nat_cases [of "first_part nums" target]
  consider (found) a b where "first_indexed (first_part nums) target a b"
      "twoSum2_nat (first_part nums) target = Inr [a, b]"
    | (none) "no_pair (first_part nums) target" "twoSum2_nat (first_part nums) target = Inr []"
    by blast
  then show ?thesis
  proof cases
    case found
    from found(2) have "twoSum2 nums target = Inr [of_nat a, of_nat b]"
      unfolding twoSum2_sim [OF assms] by (simp add: as_int_def)
    with found(1) show ?thesis by blast
  next
    case none
    from none(2) have "twoSum2 nums target = Inr []"
      unfolding twoSum2_sim [OF assms] by (simp add: as_int_def)
    with none(1) show ?thesis by blast
  qed
qed

subsection \<open>Reads stay in bounds\<close>

lemma read_below_size:
  assumes "k < vec_size v"
  shows "vec_at v k = Inr (v ! unat k)"
proof -
  from assms have "unat k < unat (vec_size v)" by (simp add: word_less_nat_alt)
  also have "unat (vec_size v) \<le> length v"
    by (simp add: vec_size_def unat_of_nat)
  finally show ?thesis by (simp add: vec_at_def)
qed

lemma twoSum_inner_safe:
  assumes "vec_size nums = 0 \<or> to_size_t i < vec_size nums"
  shows "\<exists>r. twoSum_inner nums target i j = Inr r"
proof (induction "counter_rank j" arbitrary: j rule: less_induct)
  case less
  show ?case
  proof (cases "to_size_t j < vec_size nums")
    case False
    then show ?thesis by (subst twoSum_inner.simps) simp
  next
    case True
    with assms have i: "to_size_t i < vec_size nums" by auto
    from less.hyps [OF counter_rank_less [OF True]]
    obtain r where "twoSum_inner nums target i (j + 1) = Inr r" by blast
    then show ?thesis
      by (subst twoSum_inner.simps)
         (simp add: True read_below_size [OF i] read_below_size [OF True])
  qed
qed

lemma below_size_minus_one:
  fixes k s :: size_t
  assumes "k < s - 1"
  shows "s = 0 \<or> k < s"
proof (cases "s = 0")
  case False
  then have "0 < unat s" by (simp add: unat_gt_0)
  with False have "s - 1 < s" by (simp add: word_less_nat_alt unat_minus_one)
  with assms have "k < s" by (rule less_trans)
  then show ?thesis by simp
qed simp

lemma twoSum_outer_safe: "\<exists>r. twoSum_outer nums target i = Inr r"
proof (induction "counter_rank i" arbitrary: i rule: less_induct)
  case less
  show ?case
  proof (cases "to_size_t i < vec_size nums - 1")
    case False
    then show ?thesis by (simp add: twoSum_outer_end)
  next
    case True
    from below_size_minus_one [OF True]
    have "vec_size nums = 0 \<or> to_size_t i < vec_size nums" .
    from twoSum_inner_safe [OF this]
    obtain r where inner: "twoSum_inner nums target i (i + 1) = Inr r" by blast
    from less.hyps [OF counter_rank_less [OF True]]
    obtain r' where "twoSum_outer nums target (i + 1) = Inr r'" by blast
    with inner show ?thesis
      unfolding twoSum_outer_step [OF True] by (cases r) simp_all
  qed
qed

lemma twoSum2_loop_safe: "\<exists>r. twoSum2_loop nums target cache i = Inr r"
proof (induction "counter_rank i" arbitrary: i cache rule: less_induct)
  case less
  show ?case
  proof (cases "to_size_t i < vec_size nums")
    case False
    then show ?thesis by (simp add: twoSum2_loop_end)
  next
    case True
    note read = read_below_size [OF True]
    show ?thesis
    proof (cases "cache (target - nums ! unat (to_size_t i))")
      case (Some k)
      from twoSum2_loop_hit [where cache = cache and target = target, OF True read Some]
      show ?thesis by simp
    next
      case None
      from less.hyps [OF counter_rank_less [OF True]]
      obtain r where "twoSum2_loop nums target
          (emplace cache (nums ! unat (to_size_t i)) i) (i + 1) = Inr r" by blast
      with twoSum2_loop_miss [where cache = cache and target = target, OF True read None]
      show ?thesis by simp
    qed
  qed
qed

lemma twoSum_safe: "\<exists>r. twoSum nums target = Inr r"
  using twoSum_outer_safe [of nums target 0]
  by (auto simp: twoSum_def split: option.splits)

lemma twoSum2_safe: "\<exists>r. twoSum2 nums target = Inr r"
  using twoSum2_loop_safe [of nums target Map.empty 0]
  by (auto simp: twoSum2_def split: option.splits)

subsection \<open>The vector is only read\<close>

lemma twoSum_inner_st_frame:
  "twoSum_inner_st nums target i j = (twoSum_inner nums target i j, nums)"
proof (induction "counter_rank j" arbitrary: j rule: less_induct)
  case less
  show ?case
  proof (cases "to_size_t j < vec_size nums")
    case False
    then show ?thesis
      by (subst twoSum_inner_st.simps, subst twoSum_inner.simps) simp
  next
    case True
    from less.hyps [OF counter_rank_less [OF True]] True show ?thesis
      by (subst twoSum_inner_st.simps, subst twoSum_inner.simps)
         (simp add: vec_read_def split: sum.splits)
  qed
qed

lemma twoSum_outer_st_frame:
  "twoSum_outer_st nums target i = (twoSum_outer nums target i, nums)"
proof (induction "counter_rank i" arbitrary: i rule: less_induct)
  case less
  show ?case
  proof (cases "to_size_t i < vec_size nums - 1")
    case False
    then show ?thesis
      by (subst twoSum_outer_st.simps, subst twoSum_outer.simps) simp
  next
    case True
    from less.hyps [OF counter_rank_less [OF True]] True show ?thesis
      by (subst twoSum_outer_st.simps, subst twoSum_outer.simps)
         (simp add: twoSum_inner_st_frame split: sum.splits option.splits)
  qed
qed

lemma twoSum2_loop_st_frame:
  "twoSum2_loop_st nums target cache i = (twoSum2_loop nums target cache i, nums)"
proof (induction "counter_rank i" arbitrary: i cache rule: less_induct)
  case less
  show ?case
  proof (cases "to_size_t i < vec_size nums")
    case False
    then show ?thesis
      by (subst twoSum2_loop_st.simps, subst twoSum2_loop.simps) simp
  next
    case True
    from less.hyps [OF counter_rank_less [OF True]] True show ?thesis
      by (subst twoSum2_loop_st.simps, subst twoSum2_loop.simps)
         (simp add: vec_read_def split: sum.splits option.splits)
  qed
qed

subsection \<open>The map of \<open>twoSum2\<close> holds first positions\<close>

lemma cache_inv_empty: "cache_inv nums Map.empty 0"
  by (simp add: cache_inv_def)

lemma cache_inv_None:
  assumes "cache_inv nums cache (unat i)" and "cache v = None"
  shows "\<forall>k<unat (i :: int32). nums ! k \<noteq> v"
proof (intro allI impI notI)
  fix k assume k: "k < unat i" "nums ! k = v"
  from first_index_exists [OF k(2)] obtain k0 where k0: "k0 \<le> k" "first_index nums v k0"
    by blast
  from k0(1) k(1) have "k0 < unat i" by simp
  also have "unat i < 2 ^ 32" using unsigned_less [of i] by simp
  finally have "unat (of_nat k0 :: int32) = k0" by (simp add: unat_of_nat)
  with k0 \<open>k0 < unat i\<close> assms(1) have "cache v = Some (of_nat k0)"
    by (simp add: cache_inv_def)
  with assms(2) show False by simp
qed

lemma range_step:
  fixes a b :: nat
  assumes "F \<Longrightarrow> a \<noteq> b"
  shows "(a < b \<and> F) \<longleftrightarrow> (a < Suc b \<and> F)"
  using assms by (auto simp: less_Suc_eq)

lemma range_first:
  fixes a b c :: nat
  assumes "c < Suc b" and "F c" and "\<And>x. F x \<Longrightarrow> c = x"
  shows "a = c \<longleftrightarrow> (a < Suc b \<and> F a)"
proof
  assume "a = c"
  with assms(1,2) show "a < Suc b \<and> F a" by simp
next
  assume "a < Suc b \<and> F a"
  then have "F a" ..
  then have "c = a" by (rule assms(3))
  then show "a = c" by (rule sym)
qed

lemma cache_inv_emplace:
  assumes "cache_inv nums cache (unat i)"
  shows "cache_inv nums (emplace cache (nums ! unat i) i) (Suc (unat i))"
  unfolding cache_inv_def
proof (intro allI)
  fix v k
  show "emplace cache (nums ! unat i) i v = Some k \<longleftrightarrow>
          unat k < Suc (unat i) \<and> first_index nums v (unat k)"
  proof (cases "v = nums ! unat i")
    case False
    then have "emplace cache (nums ! unat i) i v = cache v" by (simp add: emplace_def)
    moreover from assms
    have "cache v = Some k \<longleftrightarrow> unat k < unat i \<and> first_index nums v (unat k)"
      by (simp add: cache_inv_def)
    moreover have "(unat k < unat i \<and> first_index nums v (unat k)) \<longleftrightarrow>
        (unat k < Suc (unat i) \<and> first_index nums v (unat k))"
    proof (rule range_step)
      assume "first_index nums v (unat k)"
      then have "nums ! unat k = v" by (simp add: first_index_def)
      with False show "unat k \<noteq> unat i" by auto
    qed
    ultimately show ?thesis by (simp only:)
  next
    case True
    show ?thesis
    proof (cases "cache v")
      case None
      with assms have "\<forall>k<unat i. nums ! k \<noteq> v" by (rule cache_inv_None)
      with True have fi: "first_index nums v (unat i)" by (simp add: first_index_def)
      from None True have e: "emplace cache (nums ! unat i) i v = Some i"
        by (simp add: emplace_def)
      have "emplace cache (nums ! unat i) i v = Some k \<longleftrightarrow> k = i"
        unfolding e option.inject by (rule eq_commute)
      also have "k = i \<longleftrightarrow> unat k = unat i" by (rule word_unat_eq_iff)
      also have "unat k = unat i \<longleftrightarrow> unat k < Suc (unat i) \<and> first_index nums v (unat k)"
        by (rule range_first [where F = "first_index nums v" and b = "unat i", OF lessI fi]) (rule first_index_unique [OF fi])
      finally show ?thesis .
    next
      case (Some k0)
      with assms have k0: "unat k0 < unat i" "first_index nums v (unat k0)"
        by (simp_all add: cache_inv_def)
      from Some True have e: "emplace cache (nums ! unat i) i v = Some k0"
        by (simp add: emplace_def)
      have "emplace cache (nums ! unat i) i v = Some k \<longleftrightarrow> k = k0"
        unfolding e option.inject by (rule eq_commute)
      also have "k = k0 \<longleftrightarrow> unat k = unat k0" by (rule word_unat_eq_iff)
      also have "unat k = unat k0 \<longleftrightarrow> unat k < Suc (unat i) \<and> first_index nums v (unat k)"
        by (rule range_first [where F = "first_index nums v" and b = "unat i", OF less_SucI [OF k0(1)] k0(2)]) (rule first_index_unique [OF k0(2)])
      finally show ?thesis .
    qed
  qed
qed

subsection \<open>Consequences for the operations\<close>

lemma small_fits: "length nums \<le> 2 ^ 31 \<Longrightarrow> length nums \<le> PTRDIFF_MAX"
  by (simp add: PTRDIFF_MAX_def)

lemma twoSum_result:
  assumes "length nums \<le> PTRDIFF_MAX" and "twoSum nums target = Inr r" and "r \<noteq> []"
  shows "\<exists>a b. r = [of_nat a, of_nat b] \<and> first_brute (first_part nums) target a b"
  using twoSum_cases [OF assms(1), of target] assms(2,3) by auto

lemma twoSum2_result:
  assumes "length nums \<le> PTRDIFF_MAX" and "twoSum2 nums target = Inr r" and "r \<noteq> []"
  shows "\<exists>a b. r = [of_nat a, of_nat b] \<and> first_indexed (first_part nums) target a b"
  using twoSum2_cases [OF assms(1), of target] assms(2,3) by auto

lemma twoSum_empty_iff:
  assumes "length nums \<le> PTRDIFF_MAX"
  shows "twoSum nums target = Inr [] \<longleftrightarrow> no_pair (first_part nums) target"
  using twoSum_cases [OF assms, of target]
  by (auto simp: no_pair_def first_brute_def)

lemma twoSum2_empty_iff:
  assumes "length nums \<le> PTRDIFF_MAX"
  shows "twoSum2 nums target = Inr [] \<longleftrightarrow> no_pair (first_part nums) target"
  using twoSum2_cases [OF assms, of target]
  by (auto simp: no_pair_def first_indexed_def)

lemma twoSum_found:
  assumes "length nums \<le> 2 ^ 31" and "has_solution nums target"
  shows "\<exists>a b. twoSum nums target = Inr [of_nat a, of_nat b] \<and> first_brute nums target a b"
  using twoSum_cases [OF small_fits [OF assms(1)], of target] assms(2)
  by (auto simp: no_pair_iff first_part_all [OF assms(1)])

lemma twoSum2_found:
  assumes "length nums \<le> 2 ^ 31" and "has_solution nums target"
  shows "\<exists>a b. twoSum2 nums target = Inr [of_nat a, of_nat b] \<and> first_indexed nums target a b"
  using twoSum2_cases [OF small_fits [OF assms(1)], of target] assms(2)
  by (auto simp: no_pair_iff first_part_all [OF assms(1)])

lemma twoSum_refines_scan:
  assumes "length nums \<le> 2 ^ 31"
  shows "twoSum nums target = Inr (map of_nat (spec_find_pair_brute nums target))"
  unfolding twoSum_sim [OF small_fits [OF assms]] first_part_all [OF assms]
    twoSum_nat_refines_scan
  by (simp add: as_int_def)

text \<open>A position below \<open>2^31\<close> and the \<open>int\<close> that holds it.\<close>

lemma position_as_int:
  assumes "a < 2 ^ 31"
  shows "sint (of_nat a :: int32) = int a" and "nat (sint (of_nat a :: int32)) = a"
    and "0 \<le> sint (of_nat a :: int32)"
  using sint_of_nat_small [OF assms] by simp_all

lemma pair_as_int:
  assumes "pair_sums (first_part nums) target a b"
  shows "0 \<le> sint (of_nat a :: int32)"
    and "sint (of_nat a :: int32) < sint (of_nat b :: int32)"
    and "sint (of_nat b :: int32) < int (length nums)"
    and "nat (sint (of_nat a :: int32)) = a" and "nat (sint (of_nat b :: int32)) = b"
    and "nums ! a + nums ! b = target"
    and "(of_nat a :: int32) \<noteq> of_nat b"
proof -
  from assms have "pair_sums nums target a b \<and> b < 2 ^ 31"
    by (simp only: pair_sums_first_part)
  then have ps: "a < b" "b < length nums" "nums ! a + nums ! b = target" "b < 2 ^ 31"
    by (simp_all add: pair_sums_def)
  then have a: "a < 2 ^ 31" by simp
  note ia = position_as_int [OF a] and ib = position_as_int [OF ps(4)]
  show "0 \<le> sint (of_nat a :: int32)" by (rule ia(3))
  show lt: "sint (of_nat a :: int32) < sint (of_nat b :: int32)"
    unfolding ia(1) ib(1) using ps(1) by simp
  show "sint (of_nat b :: int32) < int (length nums)" unfolding ib(1) using ps(2) by simp
  show "nat (sint (of_nat a :: int32)) = a" by (rule ia(2))
  show "nat (sint (of_nat b :: int32)) = b" by (rule ib(2))
  show "nums ! a + nums ! b = target" by (rule ps(3))
  from lt show "(of_nat a :: int32) \<noteq> of_nat b" by auto
qed

text \<open>A vector of \<open>2^31\<close> zeros and one more element: a pair with the last position exists,
  and no pair lies within reach of the counters.\<close>

lemma long_vector_first_part:
  "first_part (replicate (2 ^ 31) (0 :: int32) @ [x]) = replicate (2 ^ 31) 0"
  by (simp add: first_part_def)

lemma long_vector_fits: "length (replicate (2 ^ 31) (0 :: int32) @ [x]) \<le> PTRDIFF_MAX"
  by (simp add: PTRDIFF_MAX_def)

lemma zeros_no_pair:
  assumes "target \<noteq> 0"
  shows "no_pair (replicate n 0) target"
  using assms by (auto simp: no_pair_def pair_sums_def)

lemma long_vector_pair:
  "pair_sums (replicate (2 ^ 31) (0 :: int32) @ [x]) x 0 (2 ^ 31)"
proof -
  have "(replicate (2 ^ 31) (0 :: int32) @ [x]) ! (2 ^ 31) = x"
    using nth_append_length [of "replicate (2 ^ 31) (0 :: int32)" x "[]"] by simp
  moreover have "(replicate (2 ^ 31) (0 :: int32) @ [x]) ! 0 = 0"
    by (simp add: nth_append)
  ultimately show ?thesis by (simp add: pair_sums_def)
qed

lemma long_vector_empty:
  assumes "x \<noteq> 0"
  shows "twoSum (replicate (2 ^ 31) 0 @ [x]) x = Inr []"
    and "twoSum2 (replicate (2 ^ 31) 0 @ [x]) x = Inr []"
  unfolding twoSum_empty_iff [OF long_vector_fits] twoSum2_empty_iff [OF long_vector_fits]
    long_vector_first_part
  using assms by (rule zeros_no_pair)+

lemma counter_position:
  assumes "unat (i :: int32) < 2 ^ 31"
  shows "unat (to_size_t i) = unat i"
  using unat_to_size_t_of_nat [OF assms] by (simp only: of_nat_unat ucast_id)

text \<open>Unfolding a call on a concrete vector.\<close>

lemmas brute_eval =
  twoSum_def twoSum_outer.simps twoSum_inner.simps vec_at_def vec_size_def to_size_t_def

lemmas indexed_eval =
  twoSum2_def twoSum2_loop.simps vec_at_def vec_size_def to_size_t_def emplace_def

section \<open>The properties\<close>

text \<open>
  C1. Whenever \<open>twoSum\<close> or \<open>twoSum2\<close> returns a non-empty vector, it holds exactly
  two \<open>int\<close> values \<open>i\<close> and \<open>j\<close> with \<open>0 \<le> i < j < nums.size()\<close> (so they differ
  and are in bounds) and \<open>nums[i] + nums[j] == target\<close> in the arithmetic of \<open>int\<close>.
  Where the sum of the two values as integers is in the range of \<open>int\<close>, it is the
  integer \<open>target\<close>.
\<close>

theorem returned_pair_is_valid:
  assumes "twoSum nums target = Inr r \<or> twoSum2 nums target = Inr r" and "r \<noteq> []"
    and "length nums \<le> PTRDIFF_MAX"
  shows "\<exists>i j. r = [i, j] \<and> 0 \<le> sint i \<and> sint i < sint j \<and> sint j < int (length nums) \<and>
           i \<noteq> j \<and> nums ! nat (sint i) + nums ! nat (sint j) = target \<and>
           (- (2 ^ 31) \<le> sint (nums ! nat (sint i)) + sint (nums ! nat (sint j)) \<and>
            sint (nums ! nat (sint i)) + sint (nums ! nat (sint j)) < 2 ^ 31 \<longrightarrow>
              sint (nums ! nat (sint i)) + sint (nums ! nat (sint j)) = sint target)"
proof -
  from assms(1)
  have "\<exists>a b. r = [of_nat a, of_nat b] \<and> pair_sums (first_part nums) target a b"
  proof
    assume "twoSum nums target = Inr r"
    from twoSum_result [OF assms(3) this assms(2)] show ?thesis
      by (auto simp: first_brute_def)
  next
    assume "twoSum2 nums target = Inr r"
    from twoSum2_result [OF assms(3) this assms(2)] show ?thesis
      by (auto simp: first_indexed_def)
  qed
  then obtain a b where r: "r = [of_nat a, of_nat b]"
    and ps: "pair_sums (first_part nums) target a b" by blast
  note p = pair_as_int [OF ps]
  have "sint (nums ! a) + sint (nums ! b) = sint target"
    if "- (2 ^ 31) \<le> sint (nums ! a) + sint (nums ! b) \<and>
        sint (nums ! a) + sint (nums ! b) < 2 ^ 31"
    using int_sum_no_overflow [OF p(6)] that by blast
  with r p show ?thesis by simp
qed

theorem returned_pair_is_valid_witness:
  "(twoSum [2, 7, 11, 15] 9 = Inr [0, 1] \<or> twoSum2 [2, 7, 11, 15] 9 = Inr [0, 1]) \<and>
   [0, 1 :: int32] \<noteq> [] \<and> length [2, 7, 11, 15 :: int32] \<le> PTRDIFF_MAX \<and>
   sint (0 :: int32) < sint (1 :: int32) \<and> sint (1 :: int32) < int (length [2, 7, 11, 15 :: int32]) \<and>
   [2, 7, 11, 15 :: int32] ! 0 + [2, 7, 11, 15] ! 1 = 9 \<and>
   sint ([2, 7, 11, 15 :: int32] ! 0) + sint ([2, 7, 11, 15 :: int32] ! 1) = sint (9 :: int32)"
proof -
  have h: "twoSum [2, 7, 11, 15] 9 = Inr [0, 1] \<or> twoSum2 [2, 7, 11, 15] 9 = Inr [0, 1]"
    by (simp add: brute_eval)
  have ne: "[0, 1 :: int32] \<noteq> []" by simp
  have len: "length [2, 7, 11, 15 :: int32] \<le> PTRDIFF_MAX" by (simp add: PTRDIFF_MAX_def)
  from returned_pair_is_valid [OF h ne len]
  have "sint ([2, 7, 11, 15 :: int32] ! 0) + sint ([2, 7, 11, 15 :: int32] ! 1) = sint (9 :: int32)"
    by auto
  with h ne len show ?thesis by simp
qed

text \<open>
  C2, as the code has it. On a vector of at most \<open>2^31\<close> elements, each operation
  returns a non-empty result exactly when two distinct positions of \<open>nums\<close> hold values
  that add up to \<open>target\<close>: if there are such positions it returns a pair of indices
  that is one, and if there are none it returns the empty result.
\<close>

theorem pair_returned_iff_solution_exists:
  assumes "length nums \<le> 2 ^ 31"
  shows
  "((\<exists>r. twoSum nums target = Inr r \<and> r \<noteq> []) \<longleftrightarrow> has_solution nums target) \<and>
   ((\<exists>r. twoSum2 nums target = Inr r \<and> r \<noteq> []) \<longleftrightarrow> has_solution nums target) \<and>
   (has_solution nums target \<longrightarrow>
      (\<exists>i j. twoSum nums target = Inr [of_nat i, of_nat j] \<and> pair_sums nums target i j) \<and>
      (\<exists>i j. twoSum2 nums target = Inr [of_nat i, of_nat j] \<and> pair_sums nums target i j)) \<and>
   (\<not> has_solution nums target \<longrightarrow>
      twoSum nums target = Inr [] \<and> twoSum2 nums target = Inr [])"
proof -
  note fits = small_fits [OF assms]
  note all = first_part_all [OF assms]
  have e1: "twoSum nums target = Inr [] \<longleftrightarrow> \<not> has_solution nums target"
    using twoSum_empty_iff [OF fits, of target] by (simp add: all no_pair_iff)
  have e2: "twoSum2 nums target = Inr [] \<longleftrightarrow> \<not> has_solution nums target"
    using twoSum2_empty_iff [OF fits, of target] by (simp add: all no_pair_iff)
  show ?thesis
  proof (intro conjI impI)
    show "(\<exists>r. twoSum nums target = Inr r \<and> r \<noteq> []) \<longleftrightarrow> has_solution nums target"
      using twoSum_safe [of nums target] e1 by auto
    show "(\<exists>r. twoSum2 nums target = Inr r \<and> r \<noteq> []) \<longleftrightarrow> has_solution nums target"
      using twoSum2_safe [of nums target] e2 by auto
  next
    assume sol: "has_solution nums target"
    from twoSum_found [OF assms sol]
    show "\<exists>i j. twoSum nums target = Inr [of_nat i, of_nat j] \<and> pair_sums nums target i j"
      by (auto simp: first_brute_def)
    from twoSum2_found [OF assms sol]
    show "\<exists>i j. twoSum2 nums target = Inr [of_nat i, of_nat j] \<and> pair_sums nums target i j"
      by (auto simp: first_indexed_def)
  next
    assume "\<not> has_solution nums target"
    then show "twoSum nums target = Inr []" "twoSum2 nums target = Inr []"
      by (simp_all add: e1 e2)
  qed
qed

theorem pair_returned_iff_solution_exists_witness:
  "length [3, 2, 4 :: int32] \<le> 2 ^ 31 \<and> has_solution [3, 2, 4] 6 \<and>
   twoSum [3, 2, 4] 6 = Inr [1, 2] \<and> twoSum2 [3, 2, 4] 6 = Inr [1, 2] \<and>
   pair_sums [3, 2, 4] 6 1 2 \<and>
   length [1, 2, 3 :: int32] \<le> 2 ^ 31 \<and> \<not> has_solution [1, 2, 3] 100 \<and>
   twoSum [1, 2, 3] 100 = Inr [] \<and> twoSum2 [1, 2, 3] 100 = Inr []"
proof -
  have l1: "length [3, 2, 4 :: int32] \<le> 2 ^ 31" and l2: "length [1, 2, 3 :: int32] \<le> 2 ^ 31"
    by simp_all
  have a: "twoSum [3, 2, 4] 6 = Inr [1, 2]" by (simp add: brute_eval)
  have b: "twoSum2 [3, 2, 4] 6 = Inr [1, 2]" by (simp add: indexed_eval)
  have c: "twoSum [1, 2, 3] 100 = Inr []" by (simp add: brute_eval)
  have d: "twoSum2 [1, 2, 3] 100 = Inr []" by (simp add: indexed_eval)
  have e: "pair_sums [3, 2, 4] 6 1 2" by (simp add: pair_sums_def)
  from a pair_returned_iff_solution_exists [OF l1, of 6]
  have "has_solution [3, 2, 4] 6" by auto
  moreover from c pair_returned_iff_solution_exists [OF l2, of 100]
  have "\<not> has_solution [1, 2, 3] 100" by auto
  ultimately show ?thesis using a b c d e l1 l2 by simp
qed

text \<open>
  C2 as stated, for every sequence, does not hold. On the vector of \<open>2^31\<close> zeros
  followed by a 1, with target 1, positions 0 and \<open>2^31\<close> are a solution, and both
  operations return the empty result: the \<open>int\<close> counter wraps around to \<open>INT_MIN\<close>
  after position \<open>INT_MAX\<close> and the loops end.
\<close>

theorem pair_returned_iff_solution_exists_counterexample:
  "has_solution (replicate (2 ^ 31) 0 @ [1]) 1 \<and>
   twoSum (replicate (2 ^ 31) 0 @ [1]) 1 = Inr [] \<and>
   twoSum2 (replicate (2 ^ 31) 0 @ [1]) 1 = Inr []"
proof -
  have "has_solution (replicate (2 ^ 31) 0 @ [1]) 1"
    unfolding has_solution_iff using long_vector_pair [of 1] by blast
  moreover have "(1 :: int32) \<noteq> 0" by simp
  note long_vector_empty [OF this]
  ultimately show ?thesis by (intro conjI)
qed

text \<open>
  C3, as the code has it. On a vector of at least two and at most \<open>2^31\<close> elements,
  \<open>twoSum\<close> computes the scan that the specification describes, and where some pair sums
  to \<open>target\<close> it returns the first such pair of the row-major order, the
  lexicographically least one: every pair \<open>(a, b)\<close> that sums to \<open>target\<close> has \<open>i < a\<close>,
  or \<open>i = a\<close> and \<open>j \<le> b\<close>.
\<close>

theorem brute_returns_first_in_row_major_order:
  assumes "2 \<le> length nums" and "length nums \<le> 2 ^ 31" and "has_solution nums target"
  shows "twoSum nums target = Inr (map of_nat (spec_find_pair_brute nums target)) \<and>
         (\<exists>i j. twoSum nums target = Inr [of_nat i, of_nat j] \<and>
            i < j \<and> j < length nums \<and> nums ! i + nums ! j = target \<and>
            (\<forall>a b. a < b \<and> b < length nums \<and> nums ! a + nums ! b = target \<longrightarrow>
                   i < a \<or> (i = a \<and> j \<le> b)))"
proof
  show "twoSum nums target = Inr (map of_nat (spec_find_pair_brute nums target))"
    by (rule twoSum_refines_scan [OF assms(2)])
  from twoSum_found [OF assms(2,3)]
  show "\<exists>i j. twoSum nums target = Inr [of_nat i, of_nat j] \<and>
            i < j \<and> j < length nums \<and> nums ! i + nums ! j = target \<and>
            (\<forall>a b. a < b \<and> b < length nums \<and> nums ! a + nums ! b = target \<longrightarrow>
                   i < a \<or> (i = a \<and> j \<le> b))"
    unfolding first_brute_def pair_sums_def by blast
qed

theorem brute_returns_first_in_row_major_order_witness:
  "2 \<le> length [1, 2, 3, 4 :: int32] \<and> length [1, 2, 3, 4 :: int32] \<le> 2 ^ 31 \<and>
   has_solution [1, 2, 3, 4] 5 \<and>
   twoSum [1, 2, 3, 4] 5 = Inr [0, 3] \<and> spec_find_pair_brute [1, 2, 3, 4] 5 = [0, 3] \<and>
   [1, 2, 3, 4 :: int32] ! 1 + [1, 2, 3, 4] ! 2 = 5 \<and>
   ((0 :: nat) < 1 \<or> ((0 :: nat) = 1 \<and> (3 :: nat) \<le> 2))"
proof -
  have len: "2 \<le> length [1, 2, 3, 4 :: int32]" by simp
  have len': "length [1, 2, 3, 4 :: int32] \<le> 2 ^ 31" by simp
  have sol: "has_solution [1, 2, 3, 4] 5"
    unfolding has_solution_def by (rule exI [of _ 1], rule exI [of _ 2]) simp
  have res: "twoSum [1, 2, 3, 4] 5 = Inr [0, 3]" by (simp add: brute_eval)
  have other: "(1 :: nat) < 2 \<and> 2 < length [1, 2, 3, 4 :: int32] \<and>
      [1, 2, 3, 4 :: int32] ! 1 + [1, 2, 3, 4] ! 2 = 5" by simp
  note first = brute_returns_first_in_row_major_order [OF len len' sol]
  from first obtain i j where ij: "twoSum [1, 2, 3, 4] 5 = Inr [of_nat i, of_nat j]"
    and bound: "i < j" "j < length [1, 2, 3, 4 :: int32]"
    and least: "\<forall>a b. a < b \<and> b < length [1, 2, 3, 4 :: int32] \<and>
          [1, 2, 3, 4 :: int32] ! a + [1, 2, 3, 4] ! b = 5 \<longrightarrow>
          i < a \<or> (i = a \<and> j \<le> b)"
    by blast
  from least other have order: "i < 1 \<or> (i = 1 \<and> j \<le> 2)" by blast
  from bound have small: "i < 2 ^ 31" "j < 2 ^ 31" by simp_all
  from ij res have "(of_nat i :: int32) = 0" "(of_nat j :: int32) = 3" by simp_all
  then have "unat (of_nat i :: int32) = 0" "unat (of_nat j :: int32) = 3" by simp_all
  with small have "i = 0" "j = 3" by (simp_all add: unat_of_nat)
  with order have order': "(0 :: nat) < 1 \<or> ((0 :: nat) = 1 \<and> (3 :: nat) \<le> 2)" by simp
  have scan: "spec_find_pair_brute [1, 2, 3, 4] 5 = [0, 3]"
    by (simp add: spec_find_pair_brute_def spec_row_major_pairs_def upt_conv_Cons)
  from len len' sol res scan order' show ?thesis by simp
qed

text \<open>
  C3 as stated, for every sequence of length at least 2, does not hold. On the vector of
  \<open>2^31\<close> zeros followed by a 2, with target 2, the pair of positions 0 and \<open>2^31\<close>
  sums to the target, and \<open>twoSum\<close> returns the empty result: \<open>j\<close> wraps around after
  \<open>INT_MAX\<close> and never is \<open>2^31\<close>.
\<close>

theorem brute_returns_first_in_row_major_order_counterexample:
  "2 \<le> length (replicate (2 ^ 31) 0 @ [2 :: int32]) \<and>
   has_solution (replicate (2 ^ 31) 0 @ [2]) 2 \<and>
   twoSum (replicate (2 ^ 31) 0 @ [2]) 2 = Inr []"
proof -
  have "2 \<le> length (replicate (2 ^ 31) 0 @ [2 :: int32])" by simp
  moreover have "has_solution (replicate (2 ^ 31) 0 @ [2]) 2"
    unfolding has_solution_iff using long_vector_pair [of 2] by blast
  moreover have "(2 :: int32) \<noteq> 0" by simp
  note long_vector_empty(1) [OF this]
  ultimately show ?thesis by (intro conjI)
qed

text \<open>
  C4. On every vector the two operations agree on whether there is a pair: \<open>twoSum\<close>
  returns a non-empty result exactly when \<open>twoSum2\<close> does (and so the empty result
  exactly when \<open>twoSum2\<close> does). The pairs themselves may differ, as the witness shows.
\<close>

theorem operations_agree_on_existence:
  assumes "length nums \<le> PTRDIFF_MAX"
  shows "((\<exists>r. twoSum nums target = Inr r \<and> r \<noteq> []) \<longleftrightarrow>
          (\<exists>r. twoSum2 nums target = Inr r \<and> r \<noteq> [])) \<and>
         (twoSum nums target = Inr [] \<longleftrightarrow> twoSum2 nums target = Inr [])"
  using twoSum_safe [of nums target] twoSum2_safe [of nums target]
    twoSum_empty_iff [OF assms, of target] twoSum2_empty_iff [OF assms, of target]
  by auto

theorem operations_agree_on_existence_witness:
  "length [1, 2, 3, 4 :: int32] \<le> PTRDIFF_MAX \<and> length [1, 2, 3 :: int32] \<le> PTRDIFF_MAX \<and>
   twoSum [1, 2, 3, 4] 5 = Inr [0, 3] \<and> twoSum2 [1, 2, 3, 4] 5 = Inr [1, 2] \<and>
   (\<exists>r. twoSum2 [1, 2, 3, 4] 5 = Inr r \<and> r \<noteq> []) \<and>
   twoSum [1, 2, 3] 100 = Inr [] \<and> twoSum2 [1, 2, 3] 100 = Inr []"
proof -
  have l1: "length [1, 2, 3, 4 :: int32] \<le> PTRDIFF_MAX"
    and l2: "length [1, 2, 3 :: int32] \<le> PTRDIFF_MAX" by (simp_all add: PTRDIFF_MAX_def)
  have a: "twoSum [1, 2, 3, 4] 5 = Inr [0, 3]" by (simp add: brute_eval)
  have b: "twoSum2 [1, 2, 3, 4] 5 = Inr [1, 2]" by (simp add: indexed_eval)
  have c: "twoSum [1, 2, 3] 100 = Inr []" by (simp add: brute_eval)
  from a operations_agree_on_existence [OF l1, of 5]
  have "\<exists>r. twoSum2 [1, 2, 3, 4] 5 = Inr r \<and> r \<noteq> []" by simp
  moreover from c operations_agree_on_existence [OF l2, of 100]
  have "twoSum2 [1, 2, 3] 100 = Inr []" by simp
  ultimately show ?thesis using a b c l1 l2 by simp
qed

text \<open>
  C5. One step of the loop of \<open>twoSum2\<close> at counter \<open>i\<close> with value \<open>v = nums[i]\<close>:
  when the map holds \<open>target - v\<close> the loop returns \<open>(cache[target - v], i)\<close> at once;
  otherwise it goes on at \<open>i + 1\<close> with \<open>(v, i)\<close> inserted only if \<open>v\<close> is not yet a key.
  Started from the empty map, the map therefore holds, for every value seen so far, the
  first index of that value (\<open>cache_inv\<close>). In consequence a returned pair \<open>(a, b)\<close> has
  \<open>0 \<le> a < b\<close>, with \<open>a\<close> the first position of its value, and two equal values \<open>v\<close>
  with \<open>v + v == target\<close> at positions \<open>p < q\<close>, \<open>q\<close> within reach of the counter, make
  the operation return a pair \<open>(a, b)\<close> with \<open>a < b \<le> q\<close>, which for \<open>b = q\<close> is the first
  position of \<open>v\<close> paired with \<open>q\<close>: no index is paired with itself.
\<close>

theorem indexed_step_behaviour:
  "(to_size_t i < vec_size nums \<and> cache (target - nums ! unat (to_size_t i)) = Some k \<longrightarrow>
      twoSum2_loop nums target cache i = Inr (Some [k, i])) \<and>
   (to_size_t i < vec_size nums \<and> cache (target - nums ! unat (to_size_t i)) = None \<longrightarrow>
      twoSum2_loop nums target cache i =
        twoSum2_loop nums target
          (if cache (nums ! unat (to_size_t i)) = None
           then cache(nums ! unat (to_size_t i) \<mapsto> i) else cache) (i + 1)) \<and>
   (\<not> to_size_t i < vec_size nums \<longrightarrow> twoSum2_loop nums target cache i = Inr None) \<and>
   cache_inv nums Map.empty 0 \<and>
   (cache_inv nums cache (unat i) \<and> unat i < 2 ^ 31 \<longrightarrow>
      cache_inv nums
        (if cache (nums ! unat (to_size_t i)) = None
         then cache(nums ! unat (to_size_t i) \<mapsto> i) else cache) (unat i + 1)) \<and>
   (length nums \<le> PTRDIFF_MAX \<and> twoSum2 nums target = Inr [a, b] \<longrightarrow>
      0 \<le> sint a \<and> sint a < sint b \<and> a \<noteq> b \<and>
      (\<forall>k<nat (sint a). nums ! k \<noteq> nums ! nat (sint a))) \<and>
   (length nums \<le> PTRDIFF_MAX \<and> p < q \<and> q < length nums \<and> q < 2 ^ 31 \<and>
    nums ! p = v \<and> nums ! q = v \<and> v + v = target \<longrightarrow>
      (\<exists>a b. twoSum2 nums target = Inr [of_nat a, of_nat b] \<and> a < b \<and> b \<le> q \<and>
         (b = q \<longrightarrow> a \<le> p \<and> nums ! a = v)))"
proof (intro conjI impI)
  assume h: "to_size_t i < vec_size nums \<and> cache (target - nums ! unat (to_size_t i)) = Some k"
  then have cond: "to_size_t i < vec_size nums" ..
  from h twoSum2_loop_hit [where cache = cache and target = target,
      OF cond read_below_size [OF cond]]
  show "twoSum2_loop nums target cache i = Inr (Some [k, i])" by blast
next
  assume h: "to_size_t i < vec_size nums \<and> cache (target - nums ! unat (to_size_t i)) = None"
  then have cond: "to_size_t i < vec_size nums" ..
  from h twoSum2_loop_miss [where cache = cache and target = target,
      OF cond read_below_size [OF cond]]
  have "twoSum2_loop nums target cache i =
      twoSum2_loop nums target (emplace cache (nums ! unat (to_size_t i)) i) (i + 1)"
    by blast
  then show "twoSum2_loop nums target cache i =
        twoSum2_loop nums target
          (if cache (nums ! unat (to_size_t i)) = None
           then cache(nums ! unat (to_size_t i) \<mapsto> i) else cache) (i + 1)"
    by (simp add: emplace_def)
next
  assume "\<not> to_size_t i < vec_size nums"
  then show "twoSum2_loop nums target cache i = Inr None" by (rule twoSum2_loop_end)
next
  show "cache_inv nums Map.empty 0" by (rule cache_inv_empty)
next
  assume h: "cache_inv nums cache (unat i) \<and> unat i < 2 ^ 31"
  then have inv: "cache_inv nums cache (unat i)" and small: "unat i < 2 ^ 31" by blast+
  from cache_inv_emplace [OF inv]
  show "cache_inv nums
        (if cache (nums ! unat (to_size_t i)) = None
         then cache(nums ! unat (to_size_t i) \<mapsto> i) else cache) (unat i + 1)"
    unfolding counter_position [OF small] emplace_def Suc_eq_plus1 .
next
  assume h: "length nums \<le> PTRDIFF_MAX \<and> twoSum2 nums target = Inr [a, b]"
  then have fits: "length nums \<le> PTRDIFF_MAX" and res: "twoSum2 nums target = Inr [a, b]"
    by blast+
  from twoSum2_result [OF fits res] obtain a' b' where ab: "a = of_nat a'" "b = of_nat b'"
    and fi: "first_indexed (first_part nums) target a' b'" by auto
  from fi have ps: "pair_sums (first_part nums) target a' b'" by (simp add: first_indexed_def)
  note p = pair_as_int [OF ps]
  from p ab show "0 \<le> sint a" "sint a < sint b" "a \<noteq> b" by simp_all
  show "\<forall>k<nat (sint a). nums ! k \<noteq> nums ! nat (sint a)"
    unfolding ab p(4)
  proof (intro allI impI notI)
    fix k assume k: "k < a'" "nums ! k = nums ! a'"
    from ps have "pair_sums nums target a' b' \<and> b' < 2 ^ 31"
      by (simp only: pair_sums_first_part)
    with k have "pair_sums nums target k b' \<and> b' < 2 ^ 31" by (simp add: pair_sums_def)
    then have "pair_sums (first_part nums) target k b'" by (simp only: pair_sums_first_part)
    with fi have "b' < b' \<or> (b' = b' \<and> a' \<le> k)" unfolding first_indexed_def by blast
    with \<open>k < a'\<close> show False by simp
  qed
next
  assume h: "length nums \<le> PTRDIFF_MAX \<and> p < q \<and> q < length nums \<and> q < 2 ^ 31 \<and>
    nums ! p = v \<and> nums ! q = v \<and> v + v = target"
  then have fits: "length nums \<le> PTRDIFF_MAX" by blast
  from h have "pair_sums nums target p q \<and> q < 2 ^ 31" by (simp add: pair_sums_def)
  then have pq: "pair_sums (first_part nums) target p q" by (simp only: pair_sums_first_part)
  then have "\<not> no_pair (first_part nums) target" unfolding no_pair_def by blast
  with twoSum2_cases [OF fits, of target] obtain a b
    where res: "twoSum2 nums target = Inr [of_nat a, of_nat b]"
      and fi: "first_indexed (first_part nums) target a b"
    by blast
  from fi pq have order: "b < q \<or> (b = q \<and> a \<le> p)" unfolding first_indexed_def by blast
  from fi have "pair_sums (first_part nums) target a b" by (simp add: first_indexed_def)
  then have "pair_sums nums target a b \<and> b < 2 ^ 31" by (simp only: pair_sums_first_part)
  then have ab: "a < b" "nums ! a + nums ! b = target" by (simp_all add: pair_sums_def)
  have "nums ! a = v" if "b = q"
  proof -
    from ab(2) that have s: "nums ! a + nums ! q = target" by simp
    from h have vq: "nums ! q = v" and vv: "v + v = target" by blast+
    from s vq vv have "nums ! a + v = v + v" by (simp only:)
    then show ?thesis by (simp only: add_right_cancel)
  qed
  with res ab(1) order
  have "twoSum2 nums target = Inr [of_nat a, of_nat b] \<and> a < b \<and> b \<le> q \<and>
      (b = q \<longrightarrow> a \<le> p \<and> nums ! a = v)"
    by auto
  then show "\<exists>a b. twoSum2 nums target = Inr [of_nat a, of_nat b] \<and> a < b \<and> b \<le> q \<and>
         (b = q \<longrightarrow> a \<le> p \<and> nums ! a = v)"
    by blast
qed

theorem indexed_step_behaviour_witness:
  "twoSum2_loop [3, 3] 6 [3 \<mapsto> 0] 1 = Inr (Some [0, 1]) \<and>
   twoSum2_loop [3, 3] 6 Map.empty 0 = twoSum2_loop [3, 3] 6 [3 \<mapsto> 0] 1 \<and>
   twoSum2_loop [3, 1] 6 [3 \<mapsto> 0, 1 \<mapsto> 1] 2 = Inr None \<and>
   twoSum2 [3, 3] 6 = Inr [0, 1] \<and> sint (0 :: int32) < sint (1 :: int32) \<and>
   twoSum2 [3, 1] 6 = Inr []"
proof -
  let ?c = "[3 \<mapsto> 0] :: int32 \<rightharpoonup> int32"
  have hit: "to_size_t 1 < vec_size [3, 3 :: int32] \<and>
      ?c (6 - [3, 3] ! unat (to_size_t 1)) = Some 0"
    by (simp add: to_size_t_def vec_size_def)
  have miss: "to_size_t 0 < vec_size [3, 3 :: int32] \<and>
      (Map.empty :: int32 \<rightharpoonup> int32) (6 - [3, 3] ! unat (to_size_t 0)) = None"
    by (simp add: to_size_t_def vec_size_def)
  have stop: "\<not> to_size_t 2 < vec_size [3, 1 :: int32]"
    by (simp add: to_size_t_def vec_size_def)
  have fits: "length [3, 3 :: int32] \<le> PTRDIFF_MAX" by (simp add: PTRDIFF_MAX_def)
  have res: "twoSum2 [3, 3] 6 = Inr [0, 1]" by (simp add: indexed_eval)
  note step1 = indexed_step_behaviour [of 1 "[3, 3]" ?c 6 0 0 1 0 1 3]
  note step0 = indexed_step_behaviour [of 0 "[3, 3]" Map.empty 6 0 0 1 0 1 3]
  note step2 = indexed_step_behaviour [of 2 "[3, 1]" "[3 \<mapsto> 0, 1 \<mapsto> 1]" 6 0 0 1 0 1 3]
  from step1 hit have a: "twoSum2_loop [3, 3] 6 ?c 1 = Inr (Some [0, 1])" by blast
  from step0 miss have "twoSum2_loop [3, 3] 6 Map.empty 0 =
      twoSum2_loop [3, 3] 6
        (if (Map.empty :: int32 \<rightharpoonup> int32) ([3, 3] ! unat (to_size_t 0)) = None
         then Map.empty([3, 3] ! unat (to_size_t 0) \<mapsto> 0) else Map.empty) (0 + 1)"
    by blast
  then have b: "twoSum2_loop [3, 3] 6 Map.empty 0 = twoSum2_loop [3, 3] 6 ?c 1"
    by (simp add: to_size_t_def)
  from step2 stop have c: "twoSum2_loop [3, 1] 6 [3 \<mapsto> 0, 1 \<mapsto> 1] 2 = Inr None" by blast
  from step0 fits res have d: "sint (0 :: int32) < sint (1 :: int32)" by blast
  have e: "twoSum2 [3, 1] 6 = Inr []" by (simp add: indexed_eval)
  from a b c d res e show ?thesis by (intro conjI)
qed

text \<open>
  C6. On a vector of fewer than two elements both operations return the empty result,
  whatever the target: the same value \<open>Inr []\<close> that stands for "no pair", and no
  error value.
\<close>

theorem too_short_gives_empty_result:
  assumes "length nums < 2"
  shows "twoSum nums target = Inr [] \<and> twoSum2 nums target = Inr []"
proof -
  from assms have "length nums = 0 \<or> length nums = 1" by arith
  then have "vec_size nums < 2" by (auto simp: vec_size_def)
  then show ?thesis by (simp add: twoSum_def twoSum2_def)
qed

theorem too_short_gives_empty_result_witness:
  "length [1 :: int32] < 2 \<and> twoSum [1] 1 = Inr [] \<and> twoSum2 [1] 1 = Inr [] \<and>
   length ([] :: int32 list) < 2 \<and> twoSum [] 0 = Inr [] \<and> twoSum2 [] 0 = Inr []"
proof -
  have one: "length [1 :: int32] < 2" by simp
  have none: "length ([] :: int32 list) < 2" by simp
  from too_short_gives_empty_result [OF one, of 1]
    too_short_gives_empty_result [OF none, of 0] one none
  show ?thesis by blast
qed

text \<open>
  C7. The five scenarios, on both operations: \<open>[2, 7, 11, 15]\<close> with target 9 gives
  \<open>(0, 1)\<close>; \<open>[3, 2, 4]\<close> with 6 gives \<open>(1, 2)\<close>; \<open>[3, 3]\<close> with 6 gives \<open>(0, 1)\<close>;
  \<open>[1]\<close> with 1 and \<open>[1, 2, 3]\<close> with 100 give the empty result. Every assertion of
  \<open>checkSolution\<close> holds.
\<close>

theorem concrete_scenarios:
  "twoSum [2, 7, 11, 15] 9 = Inr [0, 1] \<and> twoSum2 [2, 7, 11, 15] 9 = Inr [0, 1] \<and>
   twoSum [3, 2, 4] 6 = Inr [1, 2] \<and> twoSum2 [3, 2, 4] 6 = Inr [1, 2] \<and>
   twoSum [3, 3] 6 = Inr [0, 1] \<and> twoSum2 [3, 3] 6 = Inr [0, 1] \<and>
   twoSum [1] 1 = Inr [] \<and> twoSum2 [1] 1 = Inr [] \<and>
   twoSum [1, 2, 3] 100 = Inr [] \<and> twoSum2 [1, 2, 3] 100 = Inr [] \<and>
   checkSolution"
proof (intro conjI)
  show "twoSum [2, 7, 11, 15] 9 = Inr [0, 1]" by (simp add: brute_eval)
  show "twoSum2 [2, 7, 11, 15] 9 = Inr [0, 1]" by (simp add: indexed_eval)
  show "twoSum [3, 2, 4] 6 = Inr [1, 2]" by (simp add: brute_eval)
  show "twoSum2 [3, 2, 4] 6 = Inr [1, 2]" by (simp add: indexed_eval)
  show "twoSum [3, 3] 6 = Inr [0, 1]" by (simp add: brute_eval)
  show "twoSum2 [3, 3] 6 = Inr [0, 1]" by (simp add: indexed_eval)
  show "twoSum [1] 1 = Inr []" by (simp add: brute_eval)
  show "twoSum2 [1] 1 = Inr []" by (simp add: indexed_eval)
  show "twoSum [1, 2, 3] 100 = Inr []" by (simp add: brute_eval)
  show "twoSum2 [1, 2, 3] 100 = Inr []" by (simp add: indexed_eval)
  show checkSolution
    by (simp add: checkSolution_def assert_result_def indexed_eval)
qed

text \<open>
  C8. A call leaves the vector it was given as it found it, and its result is the value
  of the function of \<open>nums\<close> and \<open>target\<close> defined above. A later call on the same
  object therefore sees nothing of an earlier one.
\<close>

theorem calls_leave_vector_unchanged:
  "twoSum_st nums target = (twoSum nums target, nums) \<and>
   twoSum2_st nums target = (twoSum2 nums target, nums) \<and>
   twoSum_st (snd (twoSum2_st nums target')) target = (twoSum nums target, nums) \<and>
   twoSum2_st (snd (twoSum_st nums target')) target = (twoSum2 nums target, nums)"
proof -
  have a: "twoSum_st nums t = (twoSum nums t, nums)" for t
    by (simp add: twoSum_st_def twoSum_def twoSum_outer_st_frame
        split: sum.splits option.splits)
  have b: "twoSum2_st nums t = (twoSum2 nums t, nums)" for t
    by (simp add: twoSum2_st_def twoSum2_def twoSum2_loop_st_frame
        split: sum.splits option.splits)
  show ?thesis by (simp add: a b)
qed

text \<open>
  C9. The pair \<open>(i, j)\<close> that \<open>twoSum2\<close> returns is canonical: \<open>j\<close> is the smallest
  position that an earlier position completes to \<open>target\<close>, and \<open>i\<close> is the smallest
  position below \<open>j\<close> that completes it, the first occurrence of the value
  \<open>target - nums[j]\<close>.
\<close>

theorem indexed_pair_is_canonical:
  assumes "twoSum2 nums target = Inr [i, j]" and "length nums \<le> PTRDIFF_MAX"
  shows "0 \<le> sint i \<and> sint i < sint j \<and> sint j < int (length nums) \<and>
         nums ! nat (sint i) + nums ! nat (sint j) = target \<and>
         (\<forall>b<nat (sint j). \<forall>a<b. nums ! a + nums ! b \<noteq> target) \<and>
         (\<forall>k<nat (sint i). nums ! k + nums ! nat (sint j) \<noteq> target) \<and>
         nums ! nat (sint i) = target - nums ! nat (sint j) \<and>
         (\<forall>k<nat (sint i). nums ! k \<noteq> target - nums ! nat (sint j))"
proof -
  from twoSum2_result [OF assms(2,1)] obtain a b where ij: "i = of_nat a" "j = of_nat b"
    and fi: "first_indexed (first_part nums) target a b" by auto
  from fi have ps: "pair_sums (first_part nums) target a b" by (simp add: first_indexed_def)
  note p = pair_as_int [OF ps]
  from ps have full: "pair_sums nums target a b \<and> b < 2 ^ 31"
    by (simp only: pair_sums_first_part)
  then have bounds: "a < b" "b < length nums" "b < 2 ^ 31" by (simp_all add: pair_sums_def)
  have early: "\<forall>b'<b. \<forall>a'<b'. nums ! a' + nums ! b' \<noteq> target"
  proof (intro allI impI notI)
    fix b' a' assume h: "b' < b" "a' < b'" "nums ! a' + nums ! b' = target"
    with bounds have "pair_sums nums target a' b' \<and> b' < 2 ^ 31" by (simp add: pair_sums_def)
    then have "pair_sums (first_part nums) target a' b'" by (simp only: pair_sums_first_part)
    with fi have "b < b' \<or> (b = b' \<and> a \<le> a')" unfolding first_indexed_def by blast
    with \<open>b' < b\<close> show False by simp
  qed
  have least: "\<forall>k<a. nums ! k + nums ! b \<noteq> target"
  proof (intro allI impI notI)
    fix k assume h: "k < a" "nums ! k + nums ! b = target"
    with bounds have "pair_sums nums target k b \<and> b < 2 ^ 31" by (simp add: pair_sums_def)
    then have "pair_sums (first_part nums) target k b" by (simp only: pair_sums_first_part)
    with fi have "b < b \<or> (b = b \<and> a \<le> k)" unfolding first_indexed_def by blast
    with \<open>k < a\<close> show False by simp
  qed
  from p early least show ?thesis
    unfolding ij p(4) p(5) by (simp add: sum_eq_iff_partner)
qed

theorem indexed_pair_is_canonical_witness:
  "twoSum2 [1, 4, 1, 3, 4] 5 = Inr [0, 1] \<and>
   twoSum2 [2, 2, 1, 3, 4] 5 = Inr [0, 3] \<and>
   length [2, 2, 1, 3, 4 :: int32] \<le> PTRDIFF_MAX \<and>
   sint (0 :: int32) < sint (3 :: int32) \<and> sint (3 :: int32) < int (length [2, 2, 1, 3, 4 :: int32]) \<and>
   [2, 2, 1, 3, 4 :: int32] ! 0 + [2, 2, 1, 3, 4] ! 3 = 5 \<and>
   [2, 2, 1, 3, 4 :: int32] ! 1 + [2, 2, 1, 3, 4] ! 2 \<noteq> 5"
proof -
  have a: "twoSum2 [1, 4, 1, 3, 4] 5 = Inr [0, 1]" by (simp add: indexed_eval)
  have b: "twoSum2 [2, 2, 1, 3, 4] 5 = Inr [0, 3]" by (simp add: indexed_eval)
  have fits: "length [2, 2, 1, 3, 4 :: int32] \<le> PTRDIFF_MAX" by (simp add: PTRDIFF_MAX_def)
  note canon = indexed_pair_is_canonical [OF b fits]
  from canon
  have "\<forall>b<nat (sint (3 :: int32)). \<forall>a<b. [2, 2, 1, 3, 4 :: int32] ! a + [2, 2, 1, 3, 4] ! b \<noteq> 5"
    by blast
  moreover have "(2 :: nat) < nat (sint (3 :: int32))" "(1 :: nat) < 2" by simp_all
  ultimately have "[2, 2, 1, 3, 4 :: int32] ! 1 + [2, 2, 1, 3, 4] ! 2 \<noteq> 5"
    by blast
  with a b fits show ?thesis by simp
qed

text \<open>
  C10. Past the guard \<open>nums.size() < 2\<close>, the subtraction \<open>nums.size() - 1\<close> does not
  wrap around, and no read \<open>nums[i]\<close> or \<open>nums[j]\<close> of either operation is out of
  bounds: the loops, entered as the operations enter them, and the operations return a
  value, never the error of \<open>vec_at\<close>.
\<close>

theorem accesses_in_bounds:
  assumes "2 \<le> length nums" and "length nums \<le> PTRDIFF_MAX"
  shows "\<not> vec_size nums < 2 \<and>
         unat (vec_size nums - 1) + 1 = length nums \<and>
         (\<exists>r. twoSum_outer nums target 0 = Inr r) \<and>
         (\<exists>r. twoSum2_loop nums target Map.empty 0 = Inr r) \<and>
         (\<exists>r. twoSum nums target = Inr r) \<and>
         (\<exists>r. twoSum2 nums target = Inr r) \<and>
         twoSum nums target \<noteq> Inl OutOfBounds \<and> twoSum2 nums target \<noteq> Inl OutOfBounds"
proof -
  from assms(1) have pos: "0 < length nums" by arith
  from assms(1) have "\<not> vec_size nums < 2" by (simp add: guard_short [OF assms(2)])
  moreover from assms(1) have "unat (vec_size nums - 1) + 1 = length nums"
    by (simp add: unat_vec_size_minus_one [OF assms(2) pos])
  moreover note twoSum_outer_safe [of nums target 0]
    twoSum2_loop_safe [of nums target Map.empty 0]
  moreover from twoSum_safe [of nums target]
  have "(\<exists>r. twoSum nums target = Inr r) \<and> twoSum nums target \<noteq> Inl OutOfBounds" by auto
  moreover from twoSum2_safe [of nums target]
  have "(\<exists>r. twoSum2 nums target = Inr r) \<and> twoSum2 nums target \<noteq> Inl OutOfBounds" by auto
  ultimately show ?thesis by blast
qed

theorem accesses_in_bounds_witness:
  "2 \<le> length [5, 6, 7 :: int32] \<and> length [5, 6, 7 :: int32] \<le> PTRDIFF_MAX \<and>
   unat (vec_size [5, 6, 7 :: int32] - 1) + 1 = length [5, 6, 7 :: int32] \<and>
   (\<exists>r. twoSum_outer [5, 6, 7] 0 0 = Inr r) \<and>
   (\<exists>r. twoSum2_loop [5, 6, 7] 0 Map.empty 0 = Inr r) \<and>
   twoSum [5, 6, 7] 0 \<noteq> Inl OutOfBounds \<and> twoSum2 [5, 6, 7] 0 \<noteq> Inl OutOfBounds"
proof -
  have len: "2 \<le> length [5, 6, 7 :: int32]" by simp
  have fits: "length [5, 6, 7 :: int32] \<le> PTRDIFF_MAX" by (simp add: PTRDIFF_MAX_def)
  from accesses_in_bounds [OF len fits, of 0] len fits show ?thesis by blast
qed

end
